theory Spec2Isabelle
  imports Main "HOL-Library.Log_Nat"
begin

unbundle bit_operations_syntax

section \<open>Polynomial arithmetic over GF(2) (gf2\_poly\_utils.py)\<close>

text \<open>
  A polynomial with binary coefficients is a Python integer: bit \<open>i\<close> is the
  coefficient of \<open>x^i\<close>.  Python integers are unbounded, so they are values of
  type \<open>int\<close>; \<open>^\<close> is \<open>XOR\<close>, \<open>n >> 1\<close> is \<open>drop_bit 1 n\<close>,
  \<open>n & 1\<close> is \<open>n AND 1\<close> and \<open>p << i\<close> with \<open>i \<ge> 0\<close> is
  \<open>push_bit (nat i) p\<close>.  A \<open>while\<close> loop that may run forever is a
  \<open>partial_function\<close> in the option monad: \<open>None\<close> means that the call
  never returns.
\<close>

text \<open>Python's builtin \<open>int.bit_length()\<close>: the number of bits of \<open>\<bar>n\<bar>\<close>.\<close>

definition int_bit_length :: "int \<Rightarrow> int" where
  "int_bit_length n = bitlen \<bar>n\<bar>"

text \<open>
  \<open>get_bit_positions\<close>: the loop state is \<open>(n, position, positions)\<close>.  For a
  negative \<open>n\<close> the shifts converge to \<open>-1\<close> and the loop never stops.
\<close>

partial_function (option) get_bit_positions_loop :: "int \<Rightarrow> int \<Rightarrow> int list \<Rightarrow> int list option" where
  "get_bit_positions_loop n position positions =
     (if n \<noteq> 0
      then get_bit_positions_loop (drop_bit 1 n) (position + 1)
             (if n AND 1 \<noteq> 0 then positions @ [position] else positions)
      else Some positions)"

declare get_bit_positions_loop.simps [code]

definition get_bit_positions :: "int \<Rightarrow> int list option" where
  "get_bit_positions n = get_bit_positions_loop n 0 []"

definition poly_degree :: "int \<Rightarrow> int" where
  "poly_degree p = (if p = 0 then - 1 else int_bit_length p - 1)"

text \<open>
  \<open>poly_mod\<close>: the loop state is \<open>rem\<close>.  Inside the loop
  \<open>shift = poly_degree rem - deg_h\<close> is not negative by the loop condition, so
  the shift \<open>h << shift\<close> never raises.
\<close>

partial_function (option) poly_mod_loop :: "int \<Rightarrow> int \<Rightarrow> int \<Rightarrow> int option" where
  "poly_mod_loop h deg_h rem =
     (if poly_degree rem \<ge> deg_h
      then poly_mod_loop h deg_h (rem XOR push_bit (nat (poly_degree rem - deg_h)) h)
      else Some rem)"

declare poly_mod_loop.simps [code]

definition poly_mod :: "int \<Rightarrow> int \<Rightarrow> int option" where
  "poly_mod y h = poly_mod_loop h (poly_degree h) y"

text \<open>
  \<open>poly_affine\<close>: the \<open>for\<close> loop over the bit positions of \<open>a\<close> is a fold
  with accumulator \<open>out\<close>; the positions are never negative.
\<close>

definition poly_affine :: "int \<Rightarrow> int \<Rightarrow> int \<Rightarrow> int option" where
  "poly_affine a p c =
     (case get_bit_positions a of
        None \<Rightarrow> None
      | Some positions \<Rightarrow>
          Some (fold (\<lambda>i out. out XOR push_bit (nat i) p) positions 0 XOR c))"

definition poly_affine_mod :: "int \<Rightarrow> int \<Rightarrow> int \<Rightarrow> int \<Rightarrow> int option" where
  "poly_affine_mod a p c h =
     (case poly_affine a p c of
        None \<Rightarrow> None
      | Some result \<Rightarrow> poly_mod result h)"


section \<open>Exceptions, \<open>range\<close> and the \<open>random\<close> module\<close>

text \<open>
  The exceptions that the modelled code can raise: \<open>IndexError\<close> (reading
  \<open>xs[0]\<close> of an empty list), \<open>ValueError\<close> (a shift by a negative count) and
  \<open>RandintArgError\<close> (\<open>random.randint\<close> called with the non-integer bound
  that \<open>2**bit_length - 1\<close> is for a negative \<open>bit_length\<close>).  A function that
  can raise returns \<open>error + 'a\<close>.
\<close>

datatype error = IndexError | ValueError | RandintArgError

text \<open>Python's \<open>range(n)\<close>: empty for \<open>n \<le> 0\<close>.\<close>

definition py_range :: "int \<Rightarrow> int list" where
  "py_range n = map int [0..<nat n]"

text \<open>
  Python's \<open>random\<close> module keeps one global generator state.  The module is not
  part of the repository, so its two operations are parameters: \<open>seed_state s\<close> is
  the state that \<open>random.seed(s)\<close> installs, whatever the state was before, and
  \<open>randint g lo hi\<close> is the value that \<open>random.randint(lo, hi)\<close> draws in state
  \<open>g\<close> together with the state it leaves.
\<close>

record 'g random_module =
  seed_state :: "int \<Rightarrow> 'g"
  randint :: "'g \<Rightarrow> int \<Rightarrow> int \<Rightarrow> int \<times> 'g"

text \<open>The list comprehension \<open>[random.randint(0, max_val) for _ in range(n)]\<close>.\<close>

fun draw_integers :: "'g random_module \<Rightarrow> nat \<Rightarrow> int \<Rightarrow> 'g \<Rightarrow> int list \<times> 'g" where
  "draw_integers R 0 max_val g = ([], g)"
| "draw_integers R (Suc n) max_val g =
     (case randint R g 0 max_val of
        (v, g1) \<Rightarrow> (case draw_integers R n max_val g1 of (vs, g2) \<Rightarrow> (v # vs, g2)))"

text \<open>
  \<open>generate_random_integers\<close> (the same function in all five generators): it
  first reseeds the global generator, then draws.  The argument \<open>g\<close> is the state
  of the global generator when the function is called.
\<close>

definition generate_random_integers ::
  "'g random_module \<Rightarrow> int \<Rightarrow> int \<Rightarrow> int \<Rightarrow> 'g \<Rightarrow> (error + int list) \<times> 'g" where
  "generate_random_integers R num_vectors bit_length seed g =
     (let g0 = seed_state R seed
      in if num_vectors \<le> 0 then (Inr [], g0)
         else if bit_length < 0 then (Inl RandintArgError, g0)
         else (case draw_integers R (nat num_vectors) (2 ^ nat bit_length - 1) g0 of
                 (vs, g1) \<Rightarrow> (Inr vs, g1)))"

section \<open>The XOR tree generator (xor\_tree\_generator.py)\<close>

text \<open>
  The generators emit Verilog text from fixed templates.  The model keeps the
  structure of that text: every value substituted into the template, and every
  declaration and continuous assignment of the module body, in the order of emission.
  The comment header and the keywords are left out.

  A net of the XOR tree module is \<open>vec_<stage>_<index>\<close> or the output
  \<open>out_xor\<close>; all of them are declared \<open>bit_length\<close> bits wide.  The right-hand
  sides are a slice \<open>in_vectors[end_idx:begin_idx]\<close>, a net, or the XOR of two
  nets.  \<open>Assign n e\<close> stands for the pair of lines
  \<open>wire [bit_length-1:0] n; assign n = e;\<close> (for \<open>out_xor\<close>, which is a port,
  for the \<open>assign\<close> line alone).
\<close>

datatype net = Vec int int | OutXor

datatype expr = Slice int int | Ref net | XorOf net net

datatype assign = Assign net expr

record xor_tree_src =
  xt_num_vectors :: int
  xt_bit_length :: int
  xt_in_width :: int
  xt_out_width :: int
  xt_body :: "assign list"

text \<open>
  One tree stage: the inner \<open>while i < len(current_level)\<close> loop.  The first
  list is the part of \<open>current_level\<close> from index \<open>i\<close> on; two elements are
  paired (\<open>i += 2\<close>), a single last one is propagated (\<open>i += 1\<close>).  The result is
  the emitted lines and \<open>next_level\<close>.
\<close>

fun tree_stage :: "int \<Rightarrow> net list \<Rightarrow> net list \<Rightarrow> assign list \<times> net list" where
  "tree_stage stage (a # b # rest) next_level =
     (let new = Vec stage (int (length next_level))
      in case tree_stage stage rest (next_level @ [new]) of
           (lines, final_next) \<Rightarrow> (Assign new (XorOf a b) # lines, final_next))"
| "tree_stage stage [a] next_level =
     (let new = Vec stage (int (length next_level))
      in ([Assign new (Ref a)], next_level @ [new]))"
| "tree_stage stage [] next_level = ([], next_level)"

lemma length_tree_stage:
  "length (snd (tree_stage stage current_level next_level)) =
     length next_level + (length current_level + 1) div 2"
  by (induction stage current_level next_level rule: tree_stage.induct)
     (auto simp add: Let_def split: prod.splits)

text \<open>
  The outer loop \<open>while len(current_level) > 1\<close>; the result is the emitted lines
  and the last \<open>current_level\<close>.
\<close>

function tree_loop :: "int \<Rightarrow> net list \<Rightarrow> assign list \<times> net list" where
  "tree_loop stage current_level =
     (if length current_level > 1
      then (case tree_stage stage current_level [] of
              (lines, next_level) \<Rightarrow>
                (case tree_loop (stage + 1) next_level of
                   (later_lines, final_level) \<Rightarrow> (lines @ later_lines, final_level)))
      else ([], current_level))"
  by pat_completeness auto
termination
proof (relation "measure (\<lambda>(stage, current_level). length current_level)")
  show "wf (measure (\<lambda>(stage, current_level). length current_level))" by simp
next
  fix stage :: int and current_level x1 x2
  assume 1: "1 < length current_level"
    and 2: "(x1, x2) = tree_stage stage current_level []"
  have "length x2 = (length current_level + 1) div 2"
    using length_tree_stage[of stage current_level "[]"] 2[symmetric] by simp
  then show "((stage + 1, x2), (stage, current_level))
               \<in> measure (\<lambda>(stage, current_level). length current_level)"
    using 1 by simp
qed

declare tree_loop.simps [simp del]

text \<open>
  \<open>generate_src\<close> of the XOR tree: the unpacking of the input bus, the tree, and
  the output assignment, which reads \<open>current_level[0]\<close> and so raises
  \<open>IndexError\<close> when there is no vector at all.
\<close>

definition xor_tree_generate_src :: "int \<Rightarrow> int \<Rightarrow> error + xor_tree_src" where
  "xor_tree_generate_src num_vectors bit_length =
     (let unpack = map (\<lambda>i. Assign (Vec 0 i)
                             (Slice ((i + 1) * bit_length - 1) (i * bit_length)))
                       (py_range num_vectors);
          current_level = map (\<lambda>i. Vec 0 i) (py_range num_vectors)
      in case tree_loop 1 current_level of
           (tree, final_level) \<Rightarrow>
             (case final_level of
                [] \<Rightarrow> Inl IndexError
              | final # _ \<Rightarrow>
                  Inr \<lparr> xt_num_vectors = num_vectors,
                        xt_bit_length = bit_length,
                        xt_in_width = num_vectors * bit_length,
                        xt_out_width = bit_length,
                        xt_body = unpack @ tree @ [Assign OutXor (Ref final)] \<rparr>))"

text \<open>\<open>xor_integers\<close>: the loop \<open>for v in int_list: result ^= v\<close>.\<close>

definition xor_integers :: "int list \<Rightarrow> int" where
  "xor_integers int_list = fold (\<lambda>v result. result XOR v) int_list 0"

subsection \<open>What the emitted XOR tree module computes\<close>

text \<open>
  The meaning of the emitted assignments: the module is combinational, and the
  generator emits every assignment after the assignments of the nets it reads, so
  the value of each net is found by going through the body once, in order.  A slice
  \<open>in_vectors[hi:lo]\<close> is the bits \<open>lo..hi\<close> of the input bus; an assignment
  truncates to the declared width of its target; reading a net that has no value yet
  gives no result.
\<close>

fun eval_expr :: "int \<Rightarrow> (net \<rightharpoonup> int) \<Rightarrow> expr \<Rightarrow> int option" where
  "eval_expr in_vectors env (Slice hi lo) =
     Some (take_bit (nat (hi - lo + 1)) (drop_bit (nat lo) in_vectors))"
| "eval_expr in_vectors env (Ref a) = env a"
| "eval_expr in_vectors env (XorOf a b) =
     (case env a of
        None \<Rightarrow> None
      | Some x \<Rightarrow> (case env b of None \<Rightarrow> None | Some y \<Rightarrow> Some (x XOR y)))"

fun run_assigns :: "int \<Rightarrow> int \<Rightarrow> assign list \<Rightarrow> (net \<rightharpoonup> int) \<Rightarrow> (net \<rightharpoonup> int) option" where
  "run_assigns width in_vectors [] env = Some env"
| "run_assigns width in_vectors (Assign target e # rest) env =
     (case eval_expr in_vectors env e of
        None \<Rightarrow> None
      | Some v \<Rightarrow> run_assigns width in_vectors rest (env(target \<mapsto> take_bit (nat width) v)))"

definition xor_tree_output :: "xor_tree_src \<Rightarrow> int \<Rightarrow> int option" where
  "xor_tree_output m in_vectors =
     (case run_assigns (xt_bit_length m) in_vectors (xt_body m) Map.empty of
        None \<Rightarrow> None
      | Some env \<Rightarrow> env OutXor)"

text \<open>
  The input bus as the test bench drives it, \<open>in_vectors = {v0 ,v1 ,...}\<close>
  (\<open>int_list_to_verilog_vector\<close>): a Verilog concatenation, whose first element
  takes the most significant bits; every element is a \<open>bit_length\<close>-bit literal.
\<close>

definition int_list_to_verilog_vector :: "int list \<Rightarrow> int \<Rightarrow> int" where
  "int_list_to_verilog_vector int_list bit_length =
     foldl (\<lambda>bus v. push_bit (nat bit_length) bus OR take_bit (nat bit_length) v) 0 int_list"

section \<open>The modular reduction generator (gf2\_poly\_mod\_generator.py)\<close>

text \<open>
  \<open>get_reduction_constants\<close>: the \<open>for i in range(num_consts)\<close> loop, with the
  list \<open>consts\<close> as its state.  \<open>1 << (deg_h + i)\<close> raises \<open>ValueError\<close> for a
  negative shift count (possible only for \<open>h = 0\<close>), and \<open>poly_mod\<close> may not
  return.
\<close>

fun reduction_constants_loop ::
  "int \<Rightarrow> int \<Rightarrow> int list \<Rightarrow> int list \<Rightarrow> (error + int list) option" where
  "reduction_constants_loop h deg_h [] consts = Some (Inr consts)"
| "reduction_constants_loop h deg_h (i # later) consts =
     (if deg_h + i < 0 then Some (Inl ValueError)
      else (case poly_mod (push_bit (nat (deg_h + i)) 1) h of
              None \<Rightarrow> None
            | Some const \<Rightarrow> reduction_constants_loop h deg_h later (consts @ [const])))"

definition get_reduction_constants :: "int \<Rightarrow> int \<Rightarrow> (error + int list) option" where
  "get_reduction_constants h y_bit_length =
     (let deg_h = poly_degree h;
          deg_y = y_bit_length - 1;
          num_consts = max (deg_y - deg_h + 1) 0
      in reduction_constants_loop h deg_h (py_range num_consts) [])"

text \<open>
  The modules that instantiate an XOR tree drive its input bus lane by lane:
  \<open>LaneAssign hi lo src\<close> is the line \<open>assign w_in_vectors[hi:lo] = src;\<close>, where
  \<open>src\<close> is \<open>in_poly[y_idx] ? W'd const : W'd 0\<close> (\<open>GatedConst y_idx const\<close>),
  \<open>in_poly[hi:lo]\<close> (\<open>LowBits hi lo\<close>), \<open>in_poly << ti\<close> (\<open>Shifted ti\<close>),
  \<open>in_poly\<close> (\<open>Plain\<close>) or \<open>W'd c\<close> (\<open>Const c\<close>).
\<close>

datatype lane_source = GatedConst int int | LowBits int int | Shifted int | Plain | Const int

datatype lane_assign = LaneAssign int int lane_source

record poly_mod_src =
  pm_y_bit_length :: int
  pm_in_bit_length :: int
  pm_out_bit_length :: int
  pm_reduction_constants :: "int list"
  pm_xor_tree_num_vectors :: int
  pm_xor_tree_bit_length :: int
  pm_lanes :: "lane_assign list"

text \<open>Python's \<open>enumerate\<close>.\<close>

definition py_enumerate :: "'a list \<Rightarrow> (int \<times> 'a) list" where
  "py_enumerate xs = zip (map int [0..<length xs]) xs"

definition poly_mod_generate_src :: "int \<Rightarrow> int \<Rightarrow> (error + poly_mod_src) option" where
  "poly_mod_generate_src h y_bit_length =
     (let h_bit_length = int_bit_length h;
          in_bit_length = y_bit_length;
          out_bit_length = h_bit_length - 1
      in case get_reduction_constants h y_bit_length of
           None \<Rightarrow> None
         | Some (Inl e) \<Rightarrow> Some (Inl e)
         | Some (Inr reduction_constants) \<Rightarrow>
             (let xor_tree_num_vectors = int (length reduction_constants) + 1;
                  xor_tree_bit_length = out_bit_length
              in Some (Inr
                   \<lparr> pm_y_bit_length = y_bit_length,
                     pm_in_bit_length = in_bit_length,
                     pm_out_bit_length = out_bit_length,
                     pm_reduction_constants = reduction_constants,
                     pm_xor_tree_num_vectors = xor_tree_num_vectors,
                     pm_xor_tree_bit_length = xor_tree_bit_length,
                     pm_lanes =
                       map (\<lambda>(i, constant).
                              LaneAssign ((i + 1) * xor_tree_bit_length - 1) (i * xor_tree_bit_length)
                                (GatedConst (out_bit_length + i) constant))
                           (py_enumerate reduction_constants)
                       @ [LaneAssign (xor_tree_num_vectors * xor_tree_bit_length - 1)
                            ((xor_tree_num_vectors - 1) * xor_tree_bit_length)
                            (LowBits (xor_tree_bit_length - 1) 0)] \<rparr>)))"

section \<open>The affine generator (gf2\_poly\_affine\_generator.py)\<close>

record poly_affine_src =
  pa_bit_length :: int
  pa_out_bit_length :: int
  pa_xor_tree_num_vectors :: int
  pa_xor_tree_bit_length :: int
  pa_lanes :: "lane_assign list"

text \<open>
  \<open>generate_src\<close>: \<open>a_ones\<close> is the reversed list of bit positions;
  \<open>a_ones[0]\<close> raises \<open>IndexError\<close> when the list is empty, that is for
  \<open>a = 0\<close>.  The constant lane is emitted only \<open>if c\<close>.
\<close>

definition poly_affine_generate_src :: "int \<Rightarrow> int \<Rightarrow> int \<Rightarrow> (error + poly_affine_src) option" where
  "poly_affine_generate_src a c bit_length =
     (case get_bit_positions a of
        None \<Rightarrow> None
      | Some positions \<Rightarrow>
          (let a_ones = rev positions;
               num_a_ones = int (length a_ones)
           in case a_ones of
                [] \<Rightarrow> Some (Inl IndexError)
              | a_ones_0 # _ \<Rightarrow>
                  (let out_bit_length = a_ones_0 + bit_length;
                       xor_tree_num_vectors = (if c \<noteq> 0 then num_a_ones + 1 else num_a_ones);
                       xor_tree_bit_length = out_bit_length
                   in Some (Inr
                        \<lparr> pa_bit_length = bit_length,
                          pa_out_bit_length = out_bit_length,
                          pa_xor_tree_num_vectors = xor_tree_num_vectors,
                          pa_xor_tree_bit_length = xor_tree_bit_length,
                          pa_lanes =
                            map (\<lambda>(i, ti).
                                   LaneAssign ((i + 1) * xor_tree_bit_length - 1) (i * xor_tree_bit_length)
                                     (if ti \<noteq> 0 then Shifted ti else Plain))
                                (py_enumerate a_ones)
                            @ (if c \<noteq> 0
                               then [LaneAssign (xor_tree_num_vectors * xor_tree_bit_length - 1)
                                       ((xor_tree_num_vectors - 1) * xor_tree_bit_length) (Const c)]
                               else []) \<rparr>))))"

section \<open>The composed generators\<close>

text \<open>
  \<open>generate_src\<close> of gf2\_poly\_affine\_mod\_generator.py: the widths of the wires
  between the affine module and the reduction module.
\<close>

record poly_affine_mod_src =
  pam_in_bit_length :: int
  pam_out_bit_length :: int
  pam_affine_in_bit_length :: int
  pam_affine_out_bit_length :: int
  pam_mod_in_bit_length :: int
  pam_mod_out_bit_length :: int

definition poly_affine_mod_generate_src :: "int \<Rightarrow> int \<Rightarrow> int \<Rightarrow> int \<Rightarrow> poly_affine_mod_src" where
  "poly_affine_mod_generate_src a c h bit_length =
     (let in_bit_length = bit_length;
          out_bit_length = int_bit_length h - 1;
          affine_in_bit_length = in_bit_length;
          affine_out_bit_length = in_bit_length + poly_degree a;
          mod_in_bit_length = affine_out_bit_length;
          mod_out_bit_length = out_bit_length
      in \<lparr> pam_in_bit_length = in_bit_length,
           pam_out_bit_length = out_bit_length,
           pam_affine_in_bit_length = affine_in_bit_length,
           pam_affine_out_bit_length = affine_out_bit_length,
           pam_mod_in_bit_length = mod_in_bit_length,
           pam_mod_out_bit_length = mod_out_bit_length \<rparr>)"

text \<open>
  \<open>generate_src\<close> of gf2e\_prng\_tool.py: the only computed value is
  \<open>e = bit_length = poly_degree(h)\<close>, the width of \<open>seed\<close>, \<open>state\<close>,
  \<open>next_state\<close> and \<open>prng_out\<close> and the size of the instantiated
  \<open>gf2_poly_affine_mod_<e>\<close>.
\<close>

record prng_src =
  prng_e :: int

definition prng_generate_src :: "int \<Rightarrow> int \<Rightarrow> int \<Rightarrow> prng_src" where
  "prng_generate_src a c h = \<lparr> prng_e = poly_degree h \<rparr>"

text \<open>
  The clocked process that this module text contains,
  \<open>always @(posedge clk) begin if (rst) state <= seed; else if (enable) state <= next_state; end\<close>
  with \<open>assign prng_out = state\<close>.  One clock edge changes the register as
  follows; \<open>None\<close> is the register before its first reset (no defined value), and
  \<open>next_state\<close> is the function of the instantiated combinational module from
  \<open>state\<close> to \<open>next_state\<close>.
\<close>

definition prng_posedge ::
  "(int \<Rightarrow> int option) \<Rightarrow> bool \<Rightarrow> bool \<Rightarrow> int \<Rightarrow> int option \<Rightarrow> int option" where
  "prng_posedge next_state rst enable seed state =
     (if rst then Some seed
      else if enable then (case state of None \<Rightarrow> None | Some s \<Rightarrow> next_state s)
      else state)"

text \<open>A sequence of clock edges, each with its values of \<open>rst\<close> and \<open>enable\<close>.\<close>

fun prng_clock ::
  "(int \<Rightarrow> int option) \<Rightarrow> int \<Rightarrow> (bool \<times> bool) list \<Rightarrow> int option \<Rightarrow> int option" where
  "prng_clock next_state seed [] state = state"
| "prng_clock next_state seed ((rst, enable) # edges) state =
     prng_clock next_state seed edges (prng_posedge next_state rst enable seed state)"

section \<open>Test benches\<close>

text \<open>
  Every \<open>generate_tb\<close> draws its stimulus with \<open>seed=42\<close> and computes the
  expected output in software.  The model keeps the values substituted into the
  test bench text.  The functions take the state of the global random generator and
  return the state they leave.
\<close>

record xor_tree_tb =
  xtb_num_vectors :: int
  xtb_bit_length :: int
  xtb_code_input :: "int list"
  xtb_expected_code_output :: int

definition xor_tree_random_computation_example ::
  "'g random_module \<Rightarrow> int \<Rightarrow> int \<Rightarrow> int \<Rightarrow> 'g \<Rightarrow> (error + int list \<times> int) \<times> 'g" where
  "xor_tree_random_computation_example R num_vectors bit_length seed g =
     (case generate_random_integers R num_vectors bit_length seed g of
        (Inl e, g1) \<Rightarrow> (Inl e, g1)
      | (Inr code_input, g1) \<Rightarrow> (Inr (code_input, xor_integers code_input), g1))"

definition xor_tree_generate_tb ::
  "'g random_module \<Rightarrow> int \<Rightarrow> int \<Rightarrow> 'g \<Rightarrow> (error + xor_tree_tb) \<times> 'g" where
  "xor_tree_generate_tb R num_vectors bit_length g =
     (case xor_tree_random_computation_example R num_vectors bit_length 42 g of
        (Inl e, g1) \<Rightarrow> (Inl e, g1)
      | (Inr (int_list_code_input, expected_code_output), g1) \<Rightarrow>
          (Inr \<lparr> xtb_num_vectors = num_vectors,
                 xtb_bit_length = bit_length,
                 xtb_code_input = int_list_code_input,
                 xtb_expected_code_output = expected_code_output \<rparr>, g1))"

text \<open>
  \<open>generate_random_integers(1, bit_length, seed=seed)[0]\<close>, the stimulus of the
  other four test benches.
\<close>

definition draw_code_input :: "'g random_module \<Rightarrow> int \<Rightarrow> int \<Rightarrow> 'g \<Rightarrow> (error + int) \<times> 'g" where
  "draw_code_input R bit_length seed g =
     (case generate_random_integers R 1 bit_length seed g of
        (Inl e, g1) \<Rightarrow> (Inl e, g1)
      | (Inr drawn, g1) \<Rightarrow>
          (case drawn of [] \<Rightarrow> (Inl IndexError, g1) | code_input # _ \<Rightarrow> (Inr code_input, g1)))"

text \<open>\<open>len(f"{h:b}")\<close>: the digits of \<open>\<bar>h\<bar>\<close> in base 2, and the sign.\<close>

definition binary_format_length :: "int \<Rightarrow> int" where
  "binary_format_length h =
     (if h = 0 then 1 else if h < 0 then int_bit_length h + 1 else int_bit_length h)"

record poly_mod_tb =
  pmt_y_bit_length :: int
  pmt_in_bit_length :: int
  pmt_out_bit_length :: int
  pmt_code_input :: int
  pmt_expected_code_output :: int

definition poly_mod_random_computation_example ::
  "'g random_module \<Rightarrow> int \<Rightarrow> int \<Rightarrow> int \<Rightarrow> 'g \<Rightarrow> ((error + int \<times> int) \<times> 'g) option" where
  "poly_mod_random_computation_example R h y_bit_length seed g =
     (case draw_code_input R y_bit_length seed g of
        (Inl e, g1) \<Rightarrow> Some (Inl e, g1)
      | (Inr code_input, g1) \<Rightarrow>
          (case poly_mod code_input h of
             None \<Rightarrow> None
           | Some expected_code_output \<Rightarrow> Some (Inr (code_input, expected_code_output), g1)))"

definition poly_mod_generate_tb ::
  "'g random_module \<Rightarrow> int \<Rightarrow> int \<Rightarrow> 'g \<Rightarrow> ((error + poly_mod_tb) \<times> 'g) option" where
  "poly_mod_generate_tb R h y_bit_length g =
     (case poly_mod_random_computation_example R h y_bit_length 42 g of
        None \<Rightarrow> None
      | Some (Inl e, g1) \<Rightarrow> Some (Inl e, g1)
      | Some (Inr (code_input, expected_code_output), g1) \<Rightarrow>
          Some (Inr \<lparr> pmt_y_bit_length = y_bit_length,
                      pmt_in_bit_length = y_bit_length,
                      pmt_out_bit_length = binary_format_length h - 1,
                      pmt_code_input = code_input,
                      pmt_expected_code_output = expected_code_output \<rparr>, g1))"

record poly_affine_tb =
  pat_bit_length :: int
  pat_out_bit_length :: int
  pat_code_input :: int
  pat_expected_code_output :: int

definition poly_affine_random_computation_example ::
  "'g random_module \<Rightarrow> int \<Rightarrow> int \<Rightarrow> int \<Rightarrow> int \<Rightarrow> 'g \<Rightarrow> ((error + int \<times> int) \<times> 'g) option" where
  "poly_affine_random_computation_example R a c bit_length seed g =
     (case draw_code_input R bit_length seed g of
        (Inl e, g1) \<Rightarrow> Some (Inl e, g1)
      | (Inr code_input, g1) \<Rightarrow>
          (case poly_affine a code_input c of
             None \<Rightarrow> None
           | Some expected_code_output \<Rightarrow> Some (Inr (code_input, expected_code_output), g1)))"

definition poly_affine_generate_tb ::
  "'g random_module \<Rightarrow> int \<Rightarrow> int \<Rightarrow> int \<Rightarrow> 'g \<Rightarrow> ((error + poly_affine_tb) \<times> 'g) option" where
  "poly_affine_generate_tb R a c bit_length g =
     (case poly_affine_random_computation_example R a c bit_length 42 g of
        None \<Rightarrow> None
      | Some (Inl e, g1) \<Rightarrow> Some (Inl e, g1)
      | Some (Inr (code_input, expected_code_output), g1) \<Rightarrow>
          (case get_bit_positions a of
             None \<Rightarrow> None
           | Some positions \<Rightarrow>
               (case rev positions of
                  [] \<Rightarrow> Some (Inl IndexError, g1)
                | a_ones_0 # _ \<Rightarrow>
                    Some (Inr \<lparr> pat_bit_length = bit_length,
                                pat_out_bit_length = a_ones_0 + bit_length,
                                pat_code_input = code_input,
                                pat_expected_code_output = expected_code_output \<rparr>, g1))))"

record poly_affine_mod_tb =
  pamt_in_bit_length :: int
  pamt_out_bit_length :: int
  pamt_code_input :: int
  pamt_expected_code_output :: int

definition poly_affine_mod_random_computation_example ::
  "'g random_module \<Rightarrow> int \<Rightarrow> int \<Rightarrow> int \<Rightarrow> int \<Rightarrow> int \<Rightarrow> 'g \<Rightarrow> ((error + int \<times> int) \<times> 'g) option" where
  "poly_affine_mod_random_computation_example R a c h bit_length seed g =
     (case draw_code_input R bit_length seed g of
        (Inl e, g1) \<Rightarrow> Some (Inl e, g1)
      | (Inr code_input, g1) \<Rightarrow>
          (case poly_affine_mod a code_input c h of
             None \<Rightarrow> None
           | Some expected_code_output \<Rightarrow> Some (Inr (code_input, expected_code_output), g1)))"

definition poly_affine_mod_generate_tb ::
  "'g random_module \<Rightarrow> int \<Rightarrow> int \<Rightarrow> int \<Rightarrow> int \<Rightarrow> 'g \<Rightarrow> ((error + poly_affine_mod_tb) \<times> 'g) option" where
  "poly_affine_mod_generate_tb R a c h bit_length g =
     (case poly_affine_mod_random_computation_example R a c h bit_length 42 g of
        None \<Rightarrow> None
      | Some (Inl e, g1) \<Rightarrow> Some (Inl e, g1)
      | Some (Inr (code_input, expected_code_output), g1) \<Rightarrow>
          Some (Inr \<lparr> pamt_in_bit_length = bit_length,
                      pamt_out_bit_length = int_bit_length h - 1,
                      pamt_code_input = code_input,
                      pamt_expected_code_output = expected_code_output \<rparr>, g1))"

text \<open>
  The loop \<open>for _ in range(100)\<close> of the PRNG's \<open>random_computation_example\<close>,
  with its trip count as the argument: each iteration sets
  \<open>prng_out = poly_affine_mod(a, prng_in, c, h)\<close> and \<open>prng_in = prng_out\<close>, so
  after at least one iteration \<open>prng_out\<close> is the value of \<open>prng_in\<close> that the
  function returns here.
\<close>

fun prng_iterate :: "int \<Rightarrow> int \<Rightarrow> int \<Rightarrow> nat \<Rightarrow> int \<Rightarrow> int option" where
  "prng_iterate a c h 0 prng_in = Some prng_in"
| "prng_iterate a c h (Suc n) prng_in =
     (case poly_affine_mod a prng_in c h of
        None \<Rightarrow> None
      | Some prng_out \<Rightarrow> prng_iterate a c h n prng_out)"

definition prng_random_computation_example ::
  "'g random_module \<Rightarrow> int \<Rightarrow> int \<Rightarrow> int \<Rightarrow> int \<Rightarrow> 'g \<Rightarrow> ((error + int \<times> int) \<times> 'g) option" where
  "prng_random_computation_example R a c h seed g =
     (let bit_length = poly_degree h
      in case draw_code_input R bit_length seed g of
           (Inl e, g1) \<Rightarrow> Some (Inl e, g1)
         | (Inr code_input, g1) \<Rightarrow>
             (case prng_iterate a c h 100 code_input of
                None \<Rightarrow> None
              | Some expected_code_output \<Rightarrow> Some (Inr (code_input, expected_code_output), g1)))"

record prng_tb =
  ptb_e :: int
  ptb_code_input :: int
  ptb_expected_code_output :: int

definition prng_generate_tb ::
  "'g random_module \<Rightarrow> int \<Rightarrow> int \<Rightarrow> int \<Rightarrow> 'g \<Rightarrow> ((error + prng_tb) \<times> 'g) option" where
  "prng_generate_tb R a c h g =
     (case prng_random_computation_example R a c h 42 g of
        None \<Rightarrow> None
      | Some (Inl e, g1) \<Rightarrow> Some (Inl e, g1)
      | Some (Inr (code_input, expected_code_output), g1) \<Rightarrow>
          Some (Inr \<lparr> ptb_e = poly_degree h,
                      ptb_code_input = code_input,
                      ptb_expected_code_output = expected_code_output \<rparr>, g1))"

text \<open>
  The clock edges that the PRNG test bench produces before it compares
  \<open>prng_out\<close>: the clock rises every 10 time units from time 5; \<open>rst\<close> is high
  from time 10 to 20 (one edge, at 15); from time 20 \<open>enable\<close> is high and the
  bench waits for 100 edges.  Each element is \<open>(rst, enable)\<close> at one edge.
\<close>

definition prng_tb_edges :: "(bool \<times> bool) list" where
  "prng_tb_edges = [(False, False), (True, False)] @ replicate 100 (False, True)"

section \<open>Writing the generated files\<close>

text \<open>
  The \<open>generate_verilog_and_tb_to_files\<close> functions create directories, write
  files and use the global random generator.  The state they change is a record of
  the directories handed to \<open>os.makedirs\<close>, the files written (path to content)
  and the state of the random generator; a raised exception leaves the state as it
  was at the raise.  The \<open>print\<close> calls are left out.
\<close>

datatype artifact =
    XorTreeSrc xor_tree_src | XorTreeTb xor_tree_tb
  | PolyModSrc poly_mod_src | PolyModTb poly_mod_tb
  | PolyAffineSrc poly_affine_src | PolyAffineTb poly_affine_tb

record 'g world =
  dirs :: "string set"
  files :: "string \<rightharpoonup> artifact"
  rng :: 'g

text \<open>Python's \<open>str\<close> of an integer, as the f-strings of the file names use it.\<close>

fun str_nat :: "nat \<Rightarrow> string" where
  "str_nat n =
     (if n < 10 then [char_of (48 + n)]
      else str_nat (n div 10) @ [char_of (48 + n mod 10)])"

declare str_nat.simps [simp del]

definition str_int :: "int \<Rightarrow> string" where
  "str_int i = (if i < 0 then CHR ''-'' # str_nat (nat (- i)) else str_nat (nat i))"

definition makedirs :: "string \<Rightarrow> 'g world \<Rightarrow> 'g world" where
  "makedirs d w = w\<lparr> dirs := insert d (dirs w) \<rparr>"

definition write_file :: "string \<Rightarrow> artifact \<Rightarrow> 'g world \<Rightarrow> 'g world" where
  "write_file path content w = w\<lparr> files := (files w)(path \<mapsto> content) \<rparr>"

definition xor_tree_generate_verilog_and_tb_to_files ::
  "'g random_module \<Rightarrow> int \<Rightarrow> int \<Rightarrow> string \<Rightarrow> 'g world \<Rightarrow> (error + unit) \<times> 'g world" where
  "xor_tree_generate_verilog_and_tb_to_files R num_vectors bit_length save_dir w =
     (let src_dir = save_dir @ ''/src'';
          tb_dir = save_dir @ ''/tb'';
          w1 = makedirs tb_dir (makedirs src_dir w);
          out_filename = ''xor_tree_'' @ str_int num_vectors @ ''_'' @ str_int bit_length @ ''.v'';
          out_tb_filename = ''tb_'' @ out_filename;
          path_out_filename = src_dir @ ''/'' @ out_filename;
          path_out_tb_filename = tb_dir @ ''/'' @ out_tb_filename
      in case xor_tree_generate_src num_vectors bit_length of
           Inl e \<Rightarrow> (Inl e, w1)
         | Inr verilog_code \<Rightarrow>
             (let w2 = write_file path_out_filename (XorTreeSrc verilog_code) w1
              in case xor_tree_generate_tb R num_vectors bit_length (rng w2) of
                   (Inl e, g1) \<Rightarrow> (Inl e, w2\<lparr> rng := g1 \<rparr>)
                 | (Inr verilog_tb_code, g1) \<Rightarrow>
                     (Inr (), write_file path_out_tb_filename (XorTreeTb verilog_tb_code)
                                (w2\<lparr> rng := g1 \<rparr>))))"

text \<open>The modular reduction generator: first its XOR tree, then its own two files.\<close>

definition poly_mod_generate_submodules_verilog_and_tb_to_files ::
  "'g random_module \<Rightarrow> int \<Rightarrow> int \<Rightarrow> string \<Rightarrow> 'g world \<Rightarrow> (error + unit) \<times> 'g world" where
  "poly_mod_generate_submodules_verilog_and_tb_to_files R h y_bit_length save_dir w =
     (let h_bit_length = int_bit_length h;
          out_bit_length = h_bit_length - 1;
          num_vectors = max (y_bit_length - out_bit_length + 1) 0;
          bit_length = out_bit_length
      in xor_tree_generate_verilog_and_tb_to_files R num_vectors bit_length save_dir w)"

definition poly_mod_generate_verilog_and_tb_to_files ::
  "'g random_module \<Rightarrow> int \<Rightarrow> int \<Rightarrow> string \<Rightarrow> 'g world \<Rightarrow> ((error + unit) \<times> 'g world) option" where
  "poly_mod_generate_verilog_and_tb_to_files R h y_bit_length save_dir w =
     (case poly_mod_generate_submodules_verilog_and_tb_to_files R h y_bit_length save_dir w of
        (Inl e, w0) \<Rightarrow> Some (Inl e, w0)
      | (Inr _, w0) \<Rightarrow>
          (let src_dir = save_dir @ ''/src'';
               tb_dir = save_dir @ ''/tb'';
               w1 = makedirs tb_dir (makedirs src_dir w0);
               out_filename = ''gf2_poly_mod_'' @ str_int y_bit_length @ ''.v'';
               out_tb_filename = ''tb_'' @ out_filename;
               path_out_filename = src_dir @ ''/'' @ out_filename;
               path_out_tb_filename = tb_dir @ ''/'' @ out_tb_filename
           in case poly_mod_generate_src h y_bit_length of
                None \<Rightarrow> None
              | Some (Inl e) \<Rightarrow> Some (Inl e, w1)
              | Some (Inr verilog_code) \<Rightarrow>
                  (let w2 = write_file path_out_filename (PolyModSrc verilog_code) w1
                   in case poly_mod_generate_tb R h y_bit_length (rng w2) of
                        None \<Rightarrow> None
                      | Some (Inl e, g1) \<Rightarrow> Some (Inl e, w2\<lparr> rng := g1 \<rparr>)
                      | Some (Inr verilog_tb_code, g1) \<Rightarrow>
                          Some (Inr (), write_file path_out_tb_filename (PolyModTb verilog_tb_code)
                                          (w2\<lparr> rng := g1 \<rparr>)))))"

text \<open>
  The affine generator.  \<open>generate_submodules_verilog_and_tb_to_files\<close> computes
  \<open>a_ones[0] + bit_length\<close> before anything is created.
\<close>

definition poly_affine_generate_submodules_verilog_and_tb_to_files ::
  "'g random_module \<Rightarrow> int \<Rightarrow> int \<Rightarrow> int \<Rightarrow> string \<Rightarrow> 'g world \<Rightarrow> ((error + unit) \<times> 'g world) option" where
  "poly_affine_generate_submodules_verilog_and_tb_to_files R a c bit_length save_dir w =
     (case get_bit_positions a of
        None \<Rightarrow> None
      | Some positions \<Rightarrow>
          (let a_ones = rev positions;
               num_a_ones = int (length a_ones)
           in case a_ones of
                [] \<Rightarrow> Some (Inl IndexError, w)
              | a_ones_0 # _ \<Rightarrow>
                  (let out_bit_length = a_ones_0 + bit_length;
                       num_vectors = (if c \<noteq> 0 then num_a_ones + 1 else num_a_ones)
                   in Some (xor_tree_generate_verilog_and_tb_to_files R num_vectors
                              out_bit_length save_dir w))))"

definition poly_affine_generate_verilog_and_tb_to_files ::
  "'g random_module \<Rightarrow> int \<Rightarrow> int \<Rightarrow> int \<Rightarrow> string \<Rightarrow> 'g world \<Rightarrow> ((error + unit) \<times> 'g world) option" where
  "poly_affine_generate_verilog_and_tb_to_files R a c bit_length save_dir w =
     (case poly_affine_generate_submodules_verilog_and_tb_to_files R a c bit_length save_dir w of
        None \<Rightarrow> None
      | Some (Inl e, w0) \<Rightarrow> Some (Inl e, w0)
      | Some (Inr _, w0) \<Rightarrow>
          (let src_dir = save_dir @ ''/src'';
               tb_dir = save_dir @ ''/tb'';
               w1 = makedirs tb_dir (makedirs src_dir w0);
               out_filename = ''gf2_poly_affine_'' @ str_int bit_length @ ''.v'';
               out_tb_filename = ''tb_'' @ out_filename;
               path_out_filename = src_dir @ ''/'' @ out_filename;
               path_out_tb_filename = tb_dir @ ''/'' @ out_tb_filename
           in case poly_affine_generate_src a c bit_length of
                None \<Rightarrow> None
              | Some (Inl e) \<Rightarrow> Some (Inl e, w1)
              | Some (Inr verilog_code) \<Rightarrow>
                  (let w2 = write_file path_out_filename (PolyAffineSrc verilog_code) w1
                   in case poly_affine_generate_tb R a c bit_length (rng w2) of
                        None \<Rightarrow> None
                      | Some (Inl e, g1) \<Rightarrow> Some (Inl e, w2\<lparr> rng := g1 \<rparr>)
                      | Some (Inr verilog_tb_code, g1) \<Rightarrow>
                          Some (Inr (), write_file path_out_tb_filename (PolyAffineTb verilog_tb_code)
                                          (w2\<lparr> rng := g1 \<rparr>)))))"

section \<open>What the emitted modules compute\<close>

text \<open>
  The modules that instantiate an XOR tree drive disjoint slices of its input bus.
  The value of a lane source for a given value of the module's input \<open>in_poly\<close>,
  and the bus after the lane assignments: each assignment truncates its source to
  the width \<open>hi - lo + 1\<close> of the slice and puts it at bit \<open>lo\<close>.
\<close>

fun eval_lane_source :: "int \<Rightarrow> lane_source \<Rightarrow> int" where
  "eval_lane_source in_poly (GatedConst y_idx const) = (if bit in_poly (nat y_idx) then const else 0)"
| "eval_lane_source in_poly (LowBits hi lo) = take_bit (nat (hi - lo + 1)) (drop_bit (nat lo) in_poly)"
| "eval_lane_source in_poly (Shifted ti) = push_bit (nat ti) in_poly"
| "eval_lane_source in_poly Plain = in_poly"
| "eval_lane_source in_poly (Const c) = c"

fun drive_lane :: "int \<Rightarrow> lane_assign \<Rightarrow> int \<Rightarrow> int" where
  "drive_lane in_poly (LaneAssign hi lo src) bus =
     bus OR push_bit (nat lo) (take_bit (nat (hi - lo + 1)) (eval_lane_source in_poly src))"

definition drive_bus :: "int \<Rightarrow> lane_assign list \<Rightarrow> int" where
  "drive_bus in_poly lanes = fold (drive_lane in_poly) lanes 0"

text \<open>
  An instance \<open>xor_tree_<n>_<w>\<close> is the module that the XOR tree generator emits
  for \<open>n\<close> and \<open>w\<close>; there is no such module when that generator raises.
\<close>

definition xor_tree_instance :: "int \<Rightarrow> int \<Rightarrow> int \<Rightarrow> int option" where
  "xor_tree_instance n w in_vectors =
     (case xor_tree_generate_src n w of
        Inl e \<Rightarrow> None
      | Inr xt \<Rightarrow> xor_tree_output xt in_vectors)"

text \<open>
  The output \<open>out_poly\<close> of the modules \<open>gf2_poly_affine_<bit_length>\<close> and
  \<open>gf2_poly_mod_<y_bit_length>\<close> for a value of their input port, which has the
  declared width.
\<close>

definition poly_affine_module :: "int \<Rightarrow> int \<Rightarrow> int \<Rightarrow> int \<Rightarrow> int option" where
  "poly_affine_module a c bit_length in_poly =
     (case poly_affine_generate_src a c bit_length of
        Some (Inr m) \<Rightarrow>
          xor_tree_instance (pa_xor_tree_num_vectors m) (pa_xor_tree_bit_length m)
            (drive_bus (take_bit (nat (pa_bit_length m)) in_poly) (pa_lanes m))
      | _ \<Rightarrow> None)"

definition poly_mod_module :: "int \<Rightarrow> int \<Rightarrow> int \<Rightarrow> int option" where
  "poly_mod_module h y_bit_length in_poly =
     (case poly_mod_generate_src h y_bit_length of
        Some (Inr m) \<Rightarrow>
          xor_tree_instance (pm_xor_tree_num_vectors m) (pm_xor_tree_bit_length m)
            (drive_bus (take_bit (nat (pm_in_bit_length m)) in_poly) (pm_lanes m))
      | _ \<Rightarrow> None)"

text \<open>
  \<open>gf2_poly_affine_mod_<bit_length>\<close> connects the two:
  \<open>w_in_affine = in_poly\<close>, \<open>w_in_mod = w_out_affine\<close>, \<open>out_poly = w_out_mod\<close>.
  The PRNG module instantiates it with \<open>bit_length = e\<close> between \<open>state\<close> and
  \<open>next_state\<close>.
\<close>

definition poly_affine_mod_module :: "int \<Rightarrow> int \<Rightarrow> int \<Rightarrow> int \<Rightarrow> int \<Rightarrow> int option" where
  "poly_affine_mod_module a c h bit_length in_poly =
     (let m = poly_affine_mod_generate_src a c h bit_length
      in case poly_affine_module a c (pam_affine_in_bit_length m) in_poly of
           None \<Rightarrow> None
         | Some w_out_affine \<Rightarrow> poly_mod_module h (pam_mod_in_bit_length m) w_out_affine)"

definition prng_next_state :: "int \<Rightarrow> int \<Rightarrow> int \<Rightarrow> int \<Rightarrow> int option" where
  "prng_next_state a c h state =
     poly_affine_mod_module a c h (prng_e (prng_generate_src a c h)) state"

section \<open>Auxiliary notions for the proofs\<close>

text \<open>
  Carry-less multiplication of two polynomials over GF(2), by recursion on the bits of
  the first factor.  It is the value that the loop of \<open>poly_affine\<close> computes
  (lemma \<open>poly_affine_clmul\<close>) and is only used to reason about the code.
\<close>

fun clmul :: "nat \<Rightarrow> nat \<Rightarrow> nat" where
  "clmul a p =
     (if a = 0 then 0
      else (if odd a then p else 0) XOR push_bit 1 (clmul (a div 2) p))"

declare clmul.simps [simp del]

text \<open>The bit positions of \<open>n\<close> that are set, counted from \<open>pos\<close>, ascending.\<close>

fun set_bits_from :: "nat \<Rightarrow> int \<Rightarrow> int list" where
  "set_bits_from n pos =
     (if n = 0 then []
      else (if odd n then [pos] else []) @ set_bits_from (n div 2) (pos + 1))"

declare set_bits_from.simps [simp del]

text \<open>The values of the next level of the tree, given the values of a level.\<close>

fun pairxor :: "int list \<Rightarrow> int list" where
  "pairxor (a # b # rest) = (a XOR b) # pairxor rest"
| "pairxor [a] = [a]"
| "pairxor [] = []"

text \<open>
  The \<open>k\<close>-fold iteration of \<open>affineMod\<close> in the words of the specification:
  \<open>poly_affine_mod a _ c h\<close> applied \<open>k\<close> times, starting from \<open>S\<close>.
\<close>

definition affineMod_iterated :: "int \<Rightarrow> int \<Rightarrow> int \<Rightarrow> nat \<Rightarrow> int \<Rightarrow> int option" where
  "affineMod_iterated a c h k S =
     ((\<lambda>s. case s of None \<Rightarrow> None | Some p \<Rightarrow> poly_affine_mod a p c h) ^^ k) (Some S)"

section \<open>Degree bounds\<close>

lemma poly_degree_bounds:
  assumes "0 < x"
  shows "0 \<le> poly_degree x" and "2 ^ nat (poly_degree x) \<le> x"
    and "x < 2 ^ (nat (poly_degree x) + 1)"
proof -
  have b: "1 \<le> bitlen x"
    using assms bitlen_eq_zero_iff[of x] bitlen_nonneg[of x] by linarith
  from assms show "0 \<le> poly_degree x"
    using b by (simp add: poly_degree_def int_bit_length_def)
  from bitlen_bounds[OF assms] show "2 ^ nat (poly_degree x) \<le> x"
    using assms by (simp add: poly_degree_def int_bit_length_def)
  have "nat (bitlen x) = nat (bitlen x - 1) + 1" using b by simp
  with bitlen_bounds[OF assms] show "x < 2 ^ (nat (poly_degree x) + 1)"
    using assms by (simp add: poly_degree_def int_bit_length_def)
qed

lemma poly_degree_less_iff:
  assumes "0 \<le> x"
  shows "poly_degree x < int n \<longleftrightarrow> x < 2 ^ n"
proof (cases "x = 0")
  case True
  then show ?thesis by (simp add: poly_degree_def)
next
  case False
  then have pos: "0 < x" using assms by simp
  note B = poly_degree_bounds[OF pos]
  show ?thesis
  proof
    assume "poly_degree x < int n"
    then have "nat (poly_degree x) + 1 \<le> n" using B(1) by linarith
    then have "(2::int) ^ (nat (poly_degree x) + 1) \<le> 2 ^ n"
      by (intro power_increasing) simp_all
    with B(3) show "x < 2 ^ n" by linarith
  next
    assume "x < 2 ^ n"
    with B(2) have "(2::int) ^ nat (poly_degree x) < 2 ^ n" by linarith
    then have "nat (poly_degree x) < n" by (simp add: power_strict_increasing_iff)
    then show "poly_degree x < int n" using B(1) by linarith
  qed
qed

lemma exp_and_small:
  fixes x' :: int
  assumes "0 \<le> x'" "x' < 2 ^ n"
  shows "2 ^ n AND x' = 0"
proof (rule bit_eqI)
  fix k
  have tx: "take_bit n x' = x'" using assms by (simp add: take_bit_int_eq_self)
  have "\<not> bit x' n" by (subst tx[symmetric]) (simp add: bit_take_bit_iff)
  then show "bit (2 ^ n AND x') k = bit (0::int) k"
    by (auto simp add: bit_and_iff bit_exp_iff)
qed

lemma exp_add_small:
  fixes x' :: int
  assumes "0 \<le> x'" "x' < 2 ^ n"
  shows "2 ^ n + x' = 2 ^ n XOR x'"
  by (rule disjunctive_add_eq_xor) (rule exp_and_small[OF assms])

lemma xor_top_cancel:
  fixes x y :: int
  assumes "2 ^ n \<le> x" "x < 2 ^ (n + 1)" "2 ^ n \<le> y" "y < 2 ^ (n + 1)"
  shows "0 \<le> x XOR y" and "x XOR y < 2 ^ n"
proof -
  have p: "(0::int) \<le> 2 ^ n" by simp
  have x0: "0 \<le> x" and y0: "0 \<le> y" using assms(1,3) p by linarith+
  show "0 \<le> x XOR y" using x0 y0 by simp
  define x' where "x' = x - 2 ^ n"
  define y' where "y' = y - 2 ^ n"
  have x': "0 \<le> x'" "x' < 2 ^ n" and y': "0 \<le> y'" "y' < 2 ^ n"
    using assms by (simp_all add: x'_def y'_def)
  have "x = 2 ^ n + x'" by (simp add: x'_def)
  also have "\<dots> = 2 ^ n XOR x'" by (rule exp_add_small[OF x'])
  finally have ex: "x = 2 ^ n XOR x'" .
  have "y = 2 ^ n + y'" by (simp add: y'_def)
  also have "\<dots> = 2 ^ n XOR y'" by (rule exp_add_small[OF y'])
  finally have ey: "y = 2 ^ n XOR y'" .
  have "x XOR y = x' XOR y'"
    by (subst ex, subst ey) (simp add: ac_simps)
  then show "x XOR y < 2 ^ n" using XOR_upper[OF x'(1) x'(2) y'(2)] by simp
qed

section \<open>The long-division loop of \<open>poly_mod\<close>\<close>

lemma poly_mod_step:
  assumes r: "0 \<le> rem" and h: "1 \<le> h" and d: "poly_degree h \<le> poly_degree rem"
  defines "rem' \<equiv> rem XOR push_bit (nat (poly_degree rem - poly_degree h)) h"
  shows "0 \<le> rem'" and "rem' < 2 ^ nat (poly_degree rem)" and "poly_degree rem' < poly_degree rem"
    and "rem' < rem"
proof -
  have hpos: "0 < h" using h by simp
  note H = poly_degree_bounds[OF hpos]
  have rpos: "0 < rem"
  proof (rule ccontr)
    assume "\<not> 0 < rem"
    then have "rem = 0" using r by simp
    then show False using d H(1) by (simp add: poly_degree_def)
  qed
  note R = poly_degree_bounds[OF rpos]
  define s where "s = nat (poly_degree rem - poly_degree h)"
  have n: "nat (poly_degree rem) = nat (poly_degree h) + s"
    using d H(1) by (simp add: s_def)
  have lo: "2 ^ nat (poly_degree rem) \<le> push_bit s h"
    using H(2) by (simp add: n push_bit_eq_mult power_add mult.commute)
  have hi: "push_bit s h < 2 ^ (nat (poly_degree rem) + 1)"
    using H(3) by (simp add: n push_bit_eq_mult power_add mult.commute)
  have e: "rem' = rem XOR push_bit s h" by (simp add: rem'_def s_def)
  show nn: "0 \<le> rem'" unfolding e by (rule xor_top_cancel(1)[OF R(2) R(3) lo hi])
  show lt: "rem' < 2 ^ nat (poly_degree rem)" unfolding e
    by (rule xor_top_cancel(2)[OF R(2) R(3) lo hi])
  from lt show "poly_degree rem' < poly_degree rem"
    using poly_degree_less_iff[OF nn, of "nat (poly_degree rem)"] R(1) by simp
  from lt R(2) show "rem' < rem" by linarith
qed

lemma poly_mod_loop_terminates:
  assumes h: "1 \<le> h"
  shows "0 \<le> rem \<Longrightarrow> \<exists>r. poly_mod_loop h (poly_degree h) rem = Some r \<and> 0 \<le> r \<and> poly_degree r < poly_degree h"
proof (induction "nat rem" arbitrary: rem rule: less_induct)
  case less
  show ?case
  proof (cases "poly_degree h \<le> poly_degree rem")
    case False
    then show ?thesis using less.prems by (subst poly_mod_loop.simps) simp
  next
    case True
    let ?r' = "rem XOR push_bit (nat (poly_degree rem - poly_degree h)) h"
    note S = poly_mod_step[OF less.prems h True]
    have "nat ?r' < nat rem" using S(1) S(4) by linarith
    from less.hyps[OF this S(1)] obtain r where
      "poly_mod_loop h (poly_degree h) ?r' = Some r \<and> 0 \<le> r \<and> poly_degree r < poly_degree h" by blast
    then show ?thesis using True by (subst poly_mod_loop.simps) simp
  qed
qed

lemma poly_mod_loop_small:
  "poly_degree rem < deg_h \<Longrightarrow> poly_mod_loop h deg_h rem = Some rem"
  by (subst poly_mod_loop.simps) simp

lemma poly_mod_zero_diverges_aux:
  assumes "poly_mod_loop h d rem = Some r"
  shows "\<not> (h = 0 \<and> d = - 1)"
proof (rule poly_mod_loop.raw_induct[where P = "\<lambda>h d rem r. \<not> (h = 0 \<and> d = - 1)", OF _ assms])
  fix f :: "int \<Rightarrow> int \<Rightarrow> int \<Rightarrow> int option" and h d rem r
  assume IH: "\<And>h d rem r. f h d rem = Some r \<Longrightarrow> \<not> (h = 0 \<and> d = - 1)"
    and eq: "(if d \<le> poly_degree rem
              then f h d (rem XOR push_bit (nat (poly_degree rem - d)) h)
              else Some rem) = Some r"
  show "\<not> (h = 0 \<and> d = - 1)"
  proof
    assume a: "h = 0 \<and> d = - 1"
    have "- 1 \<le> poly_degree rem"
      using bitlen_nonneg[of "\<bar>rem\<bar>"] by (simp add: poly_degree_def int_bit_length_def)
    with eq a have "f 0 (- 1) rem = Some r" by (simp split: if_splits)
    from IH[OF this] show False by simp
  qed
qed

lemma poly_mod_zero_diverges: "poly_mod y 0 = None"
proof (cases "poly_mod y 0")
  case None then show ?thesis .
next
  case (Some r)
  then have "poly_mod_loop 0 (- 1) y = Some r" by (simp add: poly_mod_def poly_degree_def)
  from poly_mod_zero_diverges_aux[OF this] show ?thesis by simp
qed

lemma poly_mod_total:
  assumes "0 \<le> y" and "1 \<le> h"
  shows "\<exists>r. poly_mod y h = Some r \<and> 0 \<le> r \<and> poly_degree r < poly_degree h"
  unfolding poly_mod_def by (rule poly_mod_loop_terminates[OF assms(2) assms(1)])

lemma poly_mod_small:
  "poly_degree r < poly_degree h \<Longrightarrow> poly_mod r h = Some r"
  unfolding poly_mod_def by (rule poly_mod_loop_small)

text \<open>
  Claim C1.  For every polynomial \<open>y \<ge> 0\<close> and every modulus \<open>h \<ge> 1\<close> the
  call \<open>poly_mod y h\<close> returns a remainder whose degree is smaller than the degree
  of \<open>h\<close>, and reducing that remainder again returns it unchanged.
\<close>

theorem poly_mod_degree_idempotent:
  assumes "0 \<le> y" and "1 \<le> h"
  shows "\<exists>r. poly_mod y h = Some r \<and> poly_degree r < poly_degree h \<and> poly_mod r h = Some r"
proof -
  from poly_mod_total[OF assms] obtain r where
    r: "poly_mod y h = Some r" "poly_degree r < poly_degree h" by blast
  from poly_mod_small[OF r(2)] r show ?thesis by blast
qed

theorem poly_mod_degree_idempotent_witness:
  "(0::int) \<le> 4096 \<and> (1::int) \<le> 285 \<and> poly_mod 4096 285 = Some 205 \<and>
   poly_degree 205 < poly_degree 285 \<and> poly_mod 205 285 = Some 205"
proof -
  have v: "poly_mod 4096 285 = Some 205" by code_simp
  from poly_mod_degree_idempotent[of 4096 285] v show ?thesis by simp
qed

text \<open>
  Claim C7.  For every \<open>y \<ge> 0\<close> and \<open>h \<ge> 1\<close> the loop of \<open>poly_mod\<close>
  terminates (the call returns a value); the reason is that one iteration, taken when
  \<open>poly_degree rem \<ge> poly_degree h\<close>, strictly decreases the degree of the
  remainder.  With \<open>h = 0\<close> the call never returns, for any \<open>y\<close>: \<open>h \<noteq> 0\<close>
  is a precondition that the caller has to establish.
\<close>

theorem poly_mod_terminates:
  "(0 \<le> y \<and> 1 \<le> h \<longrightarrow> (\<exists>r. poly_mod y h = Some r)) \<and>
   (0 \<le> rem \<and> 1 \<le> h \<and> poly_degree h \<le> poly_degree rem \<longrightarrow>
      poly_degree (rem XOR push_bit (nat (poly_degree rem - poly_degree h)) h) < poly_degree rem) \<and>
   poly_mod y 0 = None"
proof (intro conjI impI)
  assume "0 \<le> y \<and> 1 \<le> h"
  then show "\<exists>r. poly_mod y h = Some r" using poly_mod_total[of y h] by blast
next
  assume "0 \<le> rem \<and> 1 \<le> h \<and> poly_degree h \<le> poly_degree rem"
  then show "poly_degree (rem XOR push_bit (nat (poly_degree rem - poly_degree h)) h) < poly_degree rem"
    using poly_mod_step(3)[of rem h] by blast
next
  show "poly_mod y 0 = None" by (rule poly_mod_zero_diverges)
qed

theorem poly_mod_terminates_witness:
  "(0::int) \<le> 4096 \<and> (1::int) \<le> 285 \<and> poly_degree 285 \<le> poly_degree 4096 \<and>
   (\<exists>r. poly_mod 4096 285 = Some r) \<and>
   poly_degree (4096 XOR push_bit (nat (poly_degree 4096 - poly_degree 285)) 285) < poly_degree 4096 \<and>
   poly_mod 4096 0 = None"
proof -
  have d: "poly_degree 285 = 8" "poly_degree 4096 = 12" by code_simp+
  from poly_mod_terminates[of 4096 285 4096] d show ?thesis by simp
qed

section \<open>Carry-less multiplication\<close>

lemma clmul_0_left [simp]: "clmul 0 p = 0" by (simp add: clmul.simps)

lemma clmul_0_right [simp]: "clmul a 0 = 0"
  by (induction a "0::nat" rule: clmul.induct) (subst clmul.simps, simp)

lemma clmul_1_left [simp]: "clmul (Suc 0) p = p"
  by (subst clmul.simps) simp

lemma clmul_xor_right: "clmul a (p XOR q) = clmul a p XOR clmul a q"
proof (induction a p arbitrary: q rule: clmul.induct)
  case (1 a p)
  show ?case
  proof (cases "a = 0")
    case True then show ?thesis by simp
  next
    case False
    have IH: "clmul (a div 2) (p XOR q) = clmul (a div 2) p XOR clmul (a div 2) q"
      using 1[OF False] .
    show ?thesis
      apply (subst clmul.simps[of a "p XOR q"])
      apply (subst clmul.simps[of a p])
      apply (subst clmul.simps[of a q])
      using False by (simp add: IH push_bit_xor ac_simps del: push_bit_Suc)
  qed
qed

lemma clmul_push_bit_right: "clmul a (push_bit n p) = push_bit n (clmul a p)"
proof (induction a p rule: clmul.induct)
  case (1 a p)
  show ?case
  proof (cases "a = 0")
    case True then show ?thesis by simp
  next
    case False
    have IH: "clmul (a div 2) (push_bit n p) = push_bit n (clmul (a div 2) p)"
      using 1[OF False] .
    show ?thesis
      apply (subst clmul.simps[of a "push_bit n p"])
      apply (subst clmul.simps[of a p])
      using False by (simp add: IH push_bit_xor push_bit_push_bit ac_simps del: push_bit_Suc)
  qed
qed

lemma nat_bit_decomp: "(p::nat) = of_bool (odd p) XOR push_bit 1 (p div 2)"
  by (subst xor_nat_rec) (simp add: push_bit_eq_mult)

lemma clmul_1_right [simp]: "clmul a (Suc 0) = a"
proof (induction a "Suc 0" rule: clmul.induct)
  case (1 a)
  show ?case
  proof (cases "a = 0")
    case True then show ?thesis by simp
  next
    case False
    have IH: "clmul (a div 2) (Suc 0) = a div 2" using 1[OF False] .
    have "clmul a (Suc 0) = (if odd a then Suc 0 else 0) XOR push_bit 1 (a div 2)"
      using False by (subst clmul.simps) (simp add: IH del: push_bit_Suc)
    also have "\<dots> = of_bool (odd a) XOR push_bit 1 (a div 2)" by simp
    also have "\<dots> = a" by (rule nat_bit_decomp[symmetric])
    finally show ?thesis .
  qed
qed

lemma clmul_rec_right:
  "clmul a p = (if odd p then a else 0) XOR push_bit 1 (clmul a (p div 2))"
proof -
  have "clmul a p = clmul a (of_bool (odd p) XOR push_bit 1 (p div 2))"
    using nat_bit_decomp[of p] by simp
  also have "\<dots> = clmul a (of_bool (odd p)) XOR push_bit 1 (clmul a (p div 2))"
    by (simp only: clmul_xor_right clmul_push_bit_right)
  also have "clmul a (of_bool (odd p)) = (if odd p then a else 0)" by simp
  finally show ?thesis .
qed

lemma clmul_commute: "clmul a p = clmul p a"
proof (induction a p rule: clmul.induct)
  case (1 a p)
  show ?case
  proof (cases "a = 0")
    case True then show ?thesis by simp
  next
    case False
    have IH: "clmul (a div 2) p = clmul p (a div 2)" using 1[OF False] .
    have "clmul a p = (if odd a then p else 0) XOR push_bit 1 (clmul (a div 2) p)"
      using False by (subst clmul.simps) simp
    also have "\<dots> = clmul p a" by (subst clmul_rec_right[of p a]) (simp only: IH)
    finally show ?thesis .
  qed
qed

lemma clmul_xor_left: "clmul (a XOR b) p = clmul a p XOR clmul b p"
  by (simp add: clmul_commute[of _ p] clmul_xor_right)

lemma clmul_push_bit_left: "clmul (push_bit n a) p = push_bit n (clmul a p)"
  by (simp add: clmul_commute[of _ p] clmul_push_bit_right)

lemma clmul_assoc: "clmul (clmul a b) c = clmul a (clmul b c)"
proof (induction a b rule: clmul.induct)
  case (1 a b)
  show ?case
  proof (cases "a = 0")
    case True then show ?thesis by simp
  next
    case False
    have IH: "clmul (clmul (a div 2) b) c = clmul (a div 2) (clmul b c)" using 1[OF False] .
    have "clmul (clmul a b) c = clmul ((if odd a then b else 0) XOR push_bit 1 (clmul (a div 2) b)) c"
      using False by (subst clmul.simps[of a b]) simp
    also have "\<dots> = (if odd a then clmul b c else 0) XOR push_bit 1 (clmul (a div 2) (clmul b c))"
      by (simp add: clmul_xor_left clmul_push_bit_left IH del: push_bit_Suc)
    also have "\<dots> = clmul a (clmul b c)"
      using False by (subst clmul.simps[of a "clmul b c"]) simp
    finally show ?thesis .
  qed
qed

lemma exp_and_small_nat:
  fixes x' :: nat
  assumes "x' < 2 ^ n"
  shows "2 ^ n AND x' = 0"
proof (rule bit_eqI)
  fix k
  have tx: "take_bit n x' = x'" using assms by (simp add: take_bit_nat_eq_self)
  have "\<not> bit x' n" by (subst tx[symmetric]) (simp add: bit_take_bit_iff)
  then show "bit (2 ^ n AND x') k = bit (0::nat) k"
    by (auto simp add: bit_and_iff bit_exp_iff)
qed

lemma xor_upper_nat:
  fixes x t :: nat
  assumes "x < 2 ^ n" "t < 2 ^ n"
  shows "x XOR t < 2 ^ n"
proof -
  have "take_bit n (x XOR t) = x XOR t" using assms by (simp add: take_bit_nat_eq_self)
  then show ?thesis by (metis take_bit_nat_less_exp)
qed

lemma xor_small_bounds:
  fixes x t :: nat
  assumes "2 ^ n \<le> x" "x < 2 ^ (n + 1)" "t < 2 ^ n"
  shows "2 ^ n \<le> x XOR t" and "x XOR t < 2 ^ (n + 1)"
proof -
  define x' where "x' = x - 2 ^ n"
  have x': "x' < 2 ^ n" and xe: "x = 2 ^ n + x'" using assms by (simp_all add: x'_def)
  have "x = 2 ^ n XOR x'" unfolding xe
    by (rule disjunctive_add_eq_xor) (rule exp_and_small_nat[OF x'])
  then have "x XOR t = 2 ^ n XOR (x' XOR t)" by (simp add: ac_simps)
  also have "\<dots> = 2 ^ n + (x' XOR t)"
    by (rule disjunctive_add_eq_xor[symmetric]) (rule exp_and_small_nat[OF xor_upper_nat[OF x' assms(3)]])
  finally have e: "x XOR t = 2 ^ n + (x' XOR t)" .
  show "2 ^ n \<le> x XOR t" unfolding e by simp
  show "x XOR t < 2 ^ (n + 1)" unfolding e using xor_upper_nat[OF x' assms(3)] by simp
qed

lemma clmul_bounds:
  assumes "2 ^ d \<le> h" "h < 2 ^ (d + 1)" 
  shows "2 ^ e \<le> q \<Longrightarrow> q < 2 ^ (e + 1) \<Longrightarrow> 2 ^ (d + e) \<le> clmul q h \<and> clmul q h < 2 ^ (d + e + 1)"
proof (induction e arbitrary: q)
  case 0
  then have "q = Suc 0" by simp
  then show ?case using assms by simp
next
  case (Suc e)
  have q0: "q \<noteq> 0" using Suc.prems by auto
  have lo: "2 ^ e \<le> q div 2" using Suc.prems(1) by simp
  have hi: "q div 2 < 2 ^ (e + 1)" using Suc.prems(2) by simp
  from Suc.IH[OF lo hi] have c: "2 ^ (d + e) \<le> clmul (q div 2) h" "clmul (q div 2) h < 2 ^ (d + e + 1)" by auto
  have c2: "2 ^ (d + e + 1) \<le> push_bit 1 (clmul (q div 2) h)" "push_bit 1 (clmul (q div 2) h) < 2 ^ (d + e + 1 + 1)"
    using c by (simp_all add: push_bit_eq_mult)
  have "h < 2 ^ (d + e + 1)"
  proof -
    have "(2::nat) ^ (d + 1) \<le> 2 ^ (d + e + 1)" by (intro power_increasing) simp_all
    with assms(2) show ?thesis by linarith
  qed
  then have t: "(if odd q then h else 0) < 2 ^ (d + e + 1)" by simp
  have e: "clmul q h = push_bit 1 (clmul (q div 2) h) XOR (if odd q then h else 0)"
    using q0 by (subst clmul.simps) (simp add: ac_simps del: push_bit_Suc)
  from xor_small_bounds[OF c2 t] show ?case unfolding e by simp
qed

section \<open>Uniqueness of the remainder\<close>

lemma clmul_nonzero_ge:
  assumes h: "2 ^ d \<le> h" "h < 2 ^ (d + 1)" and q: "q \<noteq> 0"
  shows "2 ^ d \<le> clmul q h"
proof -
  have "\<exists>e. 2 ^ e \<le> q \<and> q < 2 ^ (e + 1)"
  proof -
    have qpos: "0 < int q" using q by simp
    note B = poly_degree_bounds[OF qpos]
    have "(2::int) ^ nat (poly_degree (int q)) \<le> int q" by (rule B(2))
    then have 1: "2 ^ nat (poly_degree (int q)) \<le> q" by (metis of_nat_le_iff of_nat_numeral of_nat_power)
    have "int q < 2 ^ (nat (poly_degree (int q)) + 1)" by (rule B(3))
    then have 2: "q < 2 ^ (nat (poly_degree (int q)) + 1)" by (metis of_nat_less_iff of_nat_numeral of_nat_power)
    from 1 2 show ?thesis by blast
  qed
  then obtain e where e: "2 ^ e \<le> q" "q < 2 ^ (e + 1)" by blast
  from clmul_bounds[OF h e] have "2 ^ (d + e) \<le> clmul q h" by simp
  moreover have "(2::nat) ^ d \<le> 2 ^ (d + e)" by (intro power_increasing) simp_all
  ultimately show ?thesis by linarith
qed

lemma remainder_unique:
  assumes h: "2 ^ d \<le> h" "h < 2 ^ (d + 1)"
    and r: "r1 < 2 ^ d" "r2 < 2 ^ d" and e: "r1 XOR r2 = clmul q h"
  shows "r1 = r2"
proof -
  have "r1 XOR r2 < 2 ^ d" by (rule xor_upper_nat[OF r])
  then have "q = 0" using clmul_nonzero_ge[OF h, of q] e by (cases "q = 0") auto
  then have z: "r1 XOR r2 = 0" using e by simp
  have "r1 = (r1 XOR r2) XOR r2" by (simp add: xor.assoc)
  then show ?thesis unfolding z by simp
qed

lemma nat_xor_nonneg: "0 \<le> x \<Longrightarrow> 0 \<le> y \<Longrightarrow> nat (x XOR y) = nat x XOR nat y"
  by (simp add: xor_nat_def)

lemma nat_push_bit: "nat (push_bit n x) = push_bit n (nat x)"
  by (simp add: push_bit_nat_eq)

lemma clmul_exp: "clmul (2 ^ s) h = push_bit s h"
proof -
  have "clmul (push_bit s (Suc 0)) h = push_bit s (clmul (Suc 0) h)" by (rule clmul_push_bit_left)
  then show ?thesis by (simp add: push_bit_eq_mult)
qed

lemma poly_mod_loop_quotient:
  assumes h: "1 \<le> h"
  shows "0 \<le> rem \<Longrightarrow> \<exists>r q. poly_mod_loop h (poly_degree h) rem = Some r \<and> 0 \<le> r \<and>
           poly_degree r < poly_degree h \<and> nat r = nat rem XOR clmul q (nat h)"
proof (induction "nat rem" arbitrary: rem rule: less_induct)
  case less
  show ?case
  proof (cases "poly_degree h \<le> poly_degree rem")
    case False
    then have "poly_mod_loop h (poly_degree h) rem = Some rem"
      by (subst poly_mod_loop.simps) simp
    moreover have "nat rem = nat rem XOR clmul 0 (nat h)" by simp
    ultimately show ?thesis using less.prems False by (intro exI[of _ rem] exI[of _ 0]) simp
  next
    case True
    define s where "s = nat (poly_degree rem - poly_degree h)"
    let ?r' = "rem XOR push_bit s h"
    note S = poly_mod_step[OF less.prems h True, folded s_def]
    have "nat ?r' < nat rem" using S(1) S(4) by linarith
    from less.hyps[OF this S(1)] obtain r q where
      r: "poly_mod_loop h (poly_degree h) ?r' = Some r" "0 \<le> r" "poly_degree r < poly_degree h"
        "nat r = nat ?r' XOR clmul q (nat h)" by blast
    have hs: "0 \<le> push_bit s h" using h by simp
    have "nat ?r' = nat rem XOR push_bit s (nat h)"
      by (simp add: nat_xor_nonneg[OF less.prems hs] nat_push_bit)
    also have "push_bit s (nat h) = clmul (2 ^ s) (nat h)" by (simp add: clmul_exp)
    finally have "nat r = nat rem XOR clmul (2 ^ s XOR q) (nat h)"
      using r(4) by (simp add: clmul_xor_left ac_simps)
    moreover have "poly_mod_loop h (poly_degree h) rem = Some r"
      using True r(1) by (subst poly_mod_loop.simps) (simp add: s_def)
    ultimately show ?thesis using r(2,3) by blast
  qed
qed

section \<open>Remainders of congruent polynomials; the loop of poly\_affine\<close>

lemma nat_degree_bounds:
  assumes "1 \<le> h"
  shows "2 ^ nat (poly_degree h) \<le> nat h" and "nat h < 2 ^ (nat (poly_degree h) + 1)"
proof -
  have hpos: "0 < h" using assms by simp
  note B = poly_degree_bounds[OF hpos]
  have "int (2 ^ nat (poly_degree h)) \<le> int (nat h)" using B(2) hpos by simp
  then show "2 ^ nat (poly_degree h) \<le> nat h" by (simp only: of_nat_le_iff)
  have "int (nat h) < int (2 ^ (nat (poly_degree h) + 1))" using B(3) hpos by simp
  then show "nat h < 2 ^ (nat (poly_degree h) + 1)" by (simp only: of_nat_less_iff)
qed

lemma nat_less_degree:
  assumes "1 \<le> h" "0 \<le> r" "poly_degree r < poly_degree h"
  shows "nat r < 2 ^ nat (poly_degree h)"
proof -
  have hpos: "0 < h" using assms by simp
  have "poly_degree r < int (nat (poly_degree h))"
    using assms(3) poly_degree_bounds(1)[OF hpos] by simp
  then have "r < 2 ^ nat (poly_degree h)" using poly_degree_less_iff[OF assms(2)] by blast
  then have "int (nat r) < int (2 ^ nat (poly_degree h))" using assms(2) by simp
  then show ?thesis by (simp only: of_nat_less_iff)
qed

lemma poly_mod_quotient:
  assumes "0 \<le> y" "1 \<le> h"
  shows "\<exists>r q. poly_mod y h = Some r \<and> 0 \<le> r \<and> poly_degree r < poly_degree h \<and>
           nat r = nat y XOR clmul q (nat h)"
  unfolding poly_mod_def by (rule poly_mod_loop_quotient[OF assms(2) assms(1)])

lemma xor_cancel_left_nat: "(a::nat) XOR (a XOR b) = b"
  by (simp flip: xor.assoc)

lemma poly_mod_cong:
  assumes h: "1 \<le> h" and y: "0 \<le> y" and z: "0 \<le> z"
    and e: "nat z = nat y XOR clmul q (nat h)"
  shows "poly_mod z h = poly_mod y h"
proof -
  from poly_mod_quotient[OF y h] obtain r1 q1 where
    r1: "poly_mod y h = Some r1" "0 \<le> r1" "poly_degree r1 < poly_degree h"
        "nat r1 = nat y XOR clmul q1 (nat h)" by blast
  from poly_mod_quotient[OF z h] obtain r2 q2 where
    r2: "poly_mod z h = Some r2" "0 \<le> r2" "poly_degree r2 < poly_degree h"
        "nat r2 = nat z XOR clmul q2 (nat h)" by blast
  have "nat r1 XOR nat r2 = clmul q1 (nat h) XOR clmul q (nat h) XOR clmul q2 (nat h)"
    unfolding r1(4) r2(4) e by (simp add: ac_simps xor_cancel_left_nat)
  also have "\<dots> = clmul (q1 XOR q XOR q2) (nat h)" by (simp add: clmul_xor_left)
  finally have x: "nat r1 XOR nat r2 = clmul (q1 XOR q XOR q2) (nat h)" .
  have "nat r1 = nat r2"
    by (rule remainder_unique[OF nat_degree_bounds[OF h]
          nat_less_degree[OF h r1(2) r1(3)] nat_less_degree[OF h r2(2) r2(3)] x])
  then have "r1 = r2" using r1(2) r2(2) by simp
  then show ?thesis using r1(1) r2(1) by simp
qed

lemma get_bit_positions_loop_eq:
  "0 \<le> n \<Longrightarrow> get_bit_positions_loop n pos acc = Some (acc @ set_bits_from (nat n) pos)"
proof (induction "nat n" arbitrary: n pos acc rule: less_induct)
  case less
  show ?case
  proof (cases "n = 0")
    case True
    then show ?thesis
      by (subst get_bit_positions_loop.simps) (simp add: set_bits_from.simps)
  next
    case False
    then have pos: "0 < n" using less.prems by simp
    have d: "drop_bit (Suc 0) n = n div 2" by (simp add: drop_bit_eq_div)
    have n2: "0 \<le> n div 2" using pos by simp
    have lt: "nat (n div 2) < nat n" using pos by simp
    have odd_iff: "(n AND 1 \<noteq> 0) = odd (nat n)"
      using pos by (simp add: and_one_eq even_nat_iff mod_2_eq_odd)
    have nd: "nat (n div 2) = nat n div 2" using pos by (simp add: nat_div_distrib)
    have IH: "get_bit_positions_loop (n div 2) (pos + 1) acc' = Some (acc' @ set_bits_from (nat n div 2) (pos + 1))" for acc'
      using less.hyps[OF lt n2, of "pos + 1" acc'] by (simp add: nd)
    have nz: "nat n \<noteq> 0" using pos by simp
    show ?thesis
      apply (subst get_bit_positions_loop.simps)
      apply (subst set_bits_from.simps[of "nat n" pos])
      using False nz by (simp add: d IH odd_iff)
  qed
qed

lemma get_bit_positions_eq:
  "0 \<le> a \<Longrightarrow> get_bit_positions a = Some (set_bits_from (nat a) 0)"
  by (simp add: get_bit_positions_def get_bit_positions_loop_eq)

lemma fold_set_bits_from:
  "0 \<le> pos \<Longrightarrow>
   fold (\<lambda>i out. out XOR push_bit (nat i) (int P)) (set_bits_from n pos) out =
     out XOR push_bit (nat pos) (int (clmul n P))"
proof (induction n pos arbitrary: out rule: set_bits_from.induct)
  case (1 n pos)
  show ?case
  proof (cases "n = 0")
    case True
    then show ?thesis by (simp add: set_bits_from.simps)
  next
    case False
    have p1: "0 \<le> pos + 1" using 1(2) by simp
    have IH: "fold (\<lambda>i out. out XOR push_bit (nat i) (int P)) (set_bits_from (n div 2) (pos + 1)) out' =
                out' XOR push_bit (nat (pos + 1)) (int (clmul (n div 2) P))" for out'
      using 1(1)[OF False p1] .
    have np: "nat (pos + 1) = nat pos + 1" using 1(2) by simp
    have c: "int (clmul n P) = (if odd n then int P else 0) XOR push_bit 1 (int (clmul (n div 2) P))"
      using False by (subst clmul.simps) (simp add: of_nat_xor_eq push_bit_of_nat del: push_bit_Suc)
    have pp: "push_bit (nat pos + 1) x = push_bit (nat pos) (push_bit 1 x)" for x :: int
      by (simp add: push_bit_push_bit del: push_bit_Suc)
    have s: "set_bits_from n pos = (if odd n then [pos] else []) @ set_bits_from (n div 2) (pos + 1)"
      using False by (subst set_bits_from.simps) simp
    show ?thesis
      unfolding s fold_append comp_def IH np c pp
      by (simp add: push_bit_xor xor.assoc del: push_bit_Suc)
  qed
qed

lemma poly_affine_clmul:
  assumes "0 \<le> a" "0 \<le> p"
  shows "poly_affine a p c = Some (int (clmul (nat a) (nat p)) XOR c)"
proof -
  have "fold (\<lambda>i out. out XOR push_bit (nat i) (int (nat p))) (set_bits_from (nat a) 0) 0 =
          0 XOR push_bit (nat 0) (int (clmul (nat a) (nat p)))"
    by (rule fold_set_bits_from) simp
  then show ?thesis using assms by (simp add: poly_affine_def get_bit_positions_eq)
qed

section \<open>Pre-reduction of the recurrence constants\<close>

text \<open>
  Claim C6.  Reducing the constants \<open>a\<close> and \<open>c\<close> modulo \<open>h\<close> before
  use, as \<open>main\<close> does, does not change the recurrence: for all \<open>a, c, p \<ge> 0\<close>
  and every modulus \<open>h \<ge> 1\<close> (in particular every \<open>h\<close> of degree at least 1)
  both reductions return, and \<open>poly_affine_mod\<close> returns the same value with the
  reduced constants as with the original ones.
\<close>

theorem poly_affine_mod_prereduced:
  assumes a: "0 \<le> a" and c: "0 \<le> c" and p: "0 \<le> p" and h: "1 \<le> h"
  shows "\<exists>a' c' r. poly_mod a h = Some a' \<and> poly_mod c h = Some c' \<and>
           poly_affine_mod a p c h = Some r \<and> poly_affine_mod a' p c' h = Some r"
proof -
  from poly_mod_quotient[OF a h] obtain a' qa where
    a': "poly_mod a h = Some a'" "0 \<le> a'" "nat a' = nat a XOR clmul qa (nat h)" by blast
  from poly_mod_quotient[OF c h] obtain c' qc where
    c': "poly_mod c h = Some c'" "0 \<le> c'" "nat c' = nat c XOR clmul qc (nat h)" by blast
  define z where "z = int (clmul (nat a) (nat p)) XOR c"
  define z' where "z' = int (clmul (nat a') (nat p)) XOR c'"
  have z0: "0 \<le> z" using c by (simp add: z_def)
  have z'0: "0 \<le> z'" using c' by (simp add: z'_def)
  have nz: "nat z = clmul (nat a) (nat p) XOR nat c"
    unfolding z_def using c by (simp add: nat_xor_nonneg)
  have nz': "nat z' = clmul (nat a') (nat p) XOR nat c'"
    unfolding z'_def using c'(2) by (simp add: nat_xor_nonneg)
  have m: "clmul (clmul qa (nat h)) (nat p) = clmul (clmul qa (nat p)) (nat h)"
    by (simp add: clmul_assoc clmul_commute[of "nat h" "nat p"])
  have "nat z' = nat z XOR clmul (clmul qa (nat p) XOR qc) (nat h)"
    unfolding nz nz' a'(3) c'(3) by (simp add: clmul_xor_left m ac_simps)
  from poly_mod_cong[OF h z0 z'0 this] have e: "poly_mod z' h = poly_mod z h" .
  from poly_mod_total[OF z0 h] obtain r where r: "poly_mod z h = Some r" by blast
  have 1: "poly_affine_mod a p c h = Some r"
    using r by (simp add: poly_affine_mod_def poly_affine_clmul[OF a p] z_def)
  have 2: "poly_affine_mod a' p c' h = Some r"
    using r e by (simp add: poly_affine_mod_def poly_affine_clmul[OF a'(2) p] z'_def)
  from a'(1) c'(1) 1 2 show ?thesis by blast
qed

theorem poly_affine_mod_prereduced_witness:
  "(0::int) \<le> 300 \<and> (0::int) \<le> 301 \<and> (0::int) \<le> 77 \<and> (1::int) \<le> 285 \<and>
   poly_mod 300 285 = Some 49 \<and> poly_mod 301 285 = Some 48 \<and>
   poly_affine_mod 300 77 301 285 = Some 140 \<and> poly_affine_mod 49 77 48 285 = Some 140"
proof -
  have v: "poly_mod 300 285 = Some 49" "poly_mod 301 285 = Some 48"
    "poly_affine_mod 300 77 301 285 = Some 140" by code_simp+
  from poly_affine_mod_prereduced[of 300 301 77 285] v show ?thesis by simp
qed

section \<open>The XOR tree computes the XOR of its inputs\<close>

lemma length_pairxor: "length (pairxor vs) = (length vs + 1) div 2"
  by (induction vs rule: pairxor.induct) simp_all

lemma xor_integers_fold: "fold (\<lambda>v result. result XOR v) vs acc = acc XOR xor_integers vs"
proof (induction vs arbitrary: acc)
  case Nil then show ?case by (simp add: xor_integers_def)
next
  case (Cons v vs)
  have "fold (\<lambda>v result. result XOR v) (v # vs) acc = (acc XOR v) XOR xor_integers vs"
    by (simp add: Cons.IH)
  also have "xor_integers (v # vs) = v XOR xor_integers vs"
    using Cons.IH[of "0 XOR v"] by (simp add: xor_integers_def)
  then have "(acc XOR v) XOR xor_integers vs = acc XOR xor_integers (v # vs)"
    by (simp add: xor.assoc)
  finally show ?case .
qed

lemma xor_integers_Nil [simp]: "xor_integers [] = 0" by (simp add: xor_integers_def)
lemma xor_integers_Cons [simp]: "xor_integers (v # vs) = v XOR xor_integers vs"
  using xor_integers_fold[of vs "0 XOR v"] by (simp add: xor_integers_def)

lemma xor_integers_pairxor: "xor_integers (pairxor vs) = xor_integers vs"
  by (induction vs rule: pairxor.induct) (simp_all add: xor.assoc)

lemma pairxor_width:
  "\<forall>v\<in>set vs. take_bit W v = v \<Longrightarrow> \<forall>v\<in>set (pairxor vs). take_bit W v = v"
  by (induction vs rule: pairxor.induct) (simp_all add: take_bit_xor)

lemma xor_integers_append: "xor_integers (xs @ ys) = xor_integers xs XOR xor_integers ys"
  by (induction xs) (simp_all add: xor.assoc)

lemma xor_integers_rev: "xor_integers (rev xs) = xor_integers xs"
  by (induction xs) (simp_all add: xor_integers_append xor.commute)

lemma run_assigns_append:
  "run_assigns W bus (xs @ ys) env =
     (case run_assigns W bus xs env of None \<Rightarrow> None | Some env' \<Rightarrow> run_assigns W bus ys env')"
proof (induction xs arbitrary: env)
  case Nil then show ?case by simp
next
  case (Cons x xs)
  show ?case
  proof (cases x)
    case (Assign t e)
    show ?thesis
    proof (cases "eval_expr bus env e")
      case None
      then show ?thesis by (simp add: Assign)
    next
      case (Some v)
      then show ?thesis by (simp add: Assign Cons.IH del: fun_upd_apply)
    qed
  qed
qed

lemma tree_stage_run:
  assumes "length vals = length cur"
    and "\<forall>j<length cur. env (cur ! j) = Some (vals ! j)"
    and "\<forall>w\<in>set cur. \<forall>k. w \<noteq> Vec stage k"
    and "\<forall>v\<in>set vals. take_bit (nat W) v = v"
  shows "\<exists>env'. run_assigns W bus (fst (tree_stage stage cur nl)) env = Some env' \<and>
           snd (tree_stage stage cur nl) =
             nl @ map (\<lambda>k. Vec stage (int (length nl + k))) [0..<length (pairxor vals)] \<and>
           (\<forall>k<length (pairxor vals). env' (Vec stage (int (length nl + k))) = Some (pairxor vals ! k)) \<and>
           (\<forall>w. (\<forall>k. w \<noteq> Vec stage (int (length nl + k))) \<longrightarrow> env' w = env w)"
  using assms
proof (induction stage cur nl arbitrary: vals env rule: tree_stage.induct)
  case (1 stage a b rest nl)
  from 1(2) obtain x y vs where vals: "vals = x # y # vs" "length vs = length rest"
    by (cases vals; cases "tl vals") auto
  let ?new = "Vec stage (int (length nl))"
  let ?env1 = "env(?new \<mapsto> take_bit (nat W) (x XOR y))"
  have ea: "env a = Some x" using 1(3)[rule_format, of 0] vals by simp
  have eb: "env b = Some y" using 1(3)[rule_format, of 1] vals by simp
  have tw: "take_bit (nat W) (x XOR y) = x XOR y" using 1(5) vals by (simp add: take_bit_xor)
  have r1: "\<forall>j<length rest. ?env1 (rest ! j) = Some (vs ! j)"
  proof (intro allI impI)
    fix j assume j: "j < length rest"
    have "rest ! j \<in> set (a # b # rest)" using j by simp
    then have "rest ! j \<noteq> ?new" using 1(4) by blast
    moreover have "env (rest ! j) = Some (vs ! j)"
      using 1(3)[rule_format, of "Suc (Suc j)"] j vals by simp
    ultimately show "?env1 (rest ! j) = Some (vs ! j)" by simp
  qed
  have r2: "\<forall>w\<in>set rest. \<forall>k. w \<noteq> Vec stage k" using 1(4) by simp
  have r3: "\<forall>v\<in>set vs. take_bit (nat W) v = v" using 1(5) vals by simp
  from 1(1)[OF refl vals(2) r1 r2 r3] obtain env' where
    IH: "run_assigns W bus (fst (tree_stage stage rest (nl @ [?new]))) ?env1 = Some env'"
        "snd (tree_stage stage rest (nl @ [?new])) =
           (nl @ [?new]) @ map (\<lambda>k. Vec stage (int (length (nl @ [?new]) + k))) [0..<length (pairxor vs)]"
        "\<forall>k<length (pairxor vs). env' (Vec stage (int (length (nl @ [?new]) + k))) = Some (pairxor vs ! k)"
        "\<forall>w. (\<forall>k. w \<noteq> Vec stage (int (length (nl @ [?new]) + k))) \<longrightarrow> env' w = ?env1 w"
    by blast
  obtain lines fin where ts: "tree_stage stage rest (nl @ [?new]) = (lines, fin)"
    by fastforce
  have run: "run_assigns W bus (fst (tree_stage stage (a # b # rest) nl)) env = Some env'"
    using IH(1) ea eb by (simp add: Let_def ts del: fun_upd_apply)
  have up: "[0..<Suc n] = 0 # map Suc [0..<n]" for n
    by (simp add: upt_conv_Cons map_Suc_upt del: upt_Suc)
  have nxt: "snd (tree_stage stage (a # b # rest) nl) =
      nl @ map (\<lambda>k. Vec stage (int (length nl + k))) [0..<length (pairxor vals)]"
    using IH(2) by (simp add: Let_def ts vals up comp_def del: upt_Suc)
  have vals': "\<forall>k<length (pairxor vals). env' (Vec stage (int (length nl + k))) = Some (pairxor vals ! k)"
  proof (intro allI impI)
    fix k assume k: "k < length (pairxor vals)"
    show "env' (Vec stage (int (length nl + k))) = Some (pairxor vals ! k)"
    proof (cases k)
      case 0
      have "env' ?new = ?env1 ?new" using IH(4)[rule_format, of ?new] by simp
      then show ?thesis using 0 vals tw by simp
    next
      case (Suc k')
      then have "k' < length (pairxor vs)" using k vals by simp
      from IH(3)[rule_format, OF this] show ?thesis using Suc vals by simp
    qed
  qed
  have pres: "\<forall>w. (\<forall>k. w \<noteq> Vec stage (int (length nl + k))) \<longrightarrow> env' w = env w"
  proof (intro allI impI)
    fix w assume w: "\<forall>k. w \<noteq> Vec stage (int (length nl + k))"
    have "\<forall>k. w \<noteq> Vec stage (int (length (nl @ [?new]) + k))"
    proof
      fix k show "w \<noteq> Vec stage (int (length (nl @ [?new]) + k))" using w[rule_format, of "Suc k"] by simp
    qed
    then have "env' w = ?env1 w" using IH(4) by blast
    moreover have "w \<noteq> ?new" using w[rule_format, of 0] by simp
    ultimately show "env' w = env w" by simp
  qed
  from run nxt vals' pres show ?case by blast
next
  case (2 stage a nl)
  from 2(1) obtain x where vals: "vals = [x]" by (cases vals) auto
  have ea: "env a = Some x" using 2(2)[rule_format, of 0] vals by simp
  have tw: "take_bit (nat W) x = x" using 2(4) vals by simp
  let ?new = "Vec stage (int (length nl))"
  let ?env' = "env(?new \<mapsto> x)"
  have run: "run_assigns W bus (fst (tree_stage stage [a] nl)) env = Some ?env'"
    using ea tw by (simp add: Let_def)
  have nxt: "snd (tree_stage stage [a] nl) =
      nl @ map (\<lambda>k. Vec stage (int (length nl + k))) [0..<length (pairxor vals)]"
    by (simp add: Let_def vals)
  have vals': "\<forall>k<length (pairxor vals). ?env' (Vec stage (int (length nl + k))) = Some (pairxor vals ! k)"
    by (simp add: vals)
  have pres: "\<forall>w. (\<forall>k. w \<noteq> Vec stage (int (length nl + k))) \<longrightarrow> ?env' w = env w"
  proof (intro allI impI)
    fix w assume w: "\<forall>k. w \<noteq> Vec stage (int (length nl + k))"
    have "w \<noteq> ?new" using w[rule_format, of 0] by simp
    then show "?env' w = env w" by simp
  qed
  from run nxt vals' pres show ?case by blast
next
  case (3 stage nl)
  then show ?case by simp
qed

lemma tree_loop_run:
  assumes "length vals = length cur"
    and "\<forall>j<length cur. env (cur ! j) = Some (vals ! j)"
    and "\<forall>w\<in>set cur. \<exists>s k. w = Vec s k \<and> s < stage"
    and "\<forall>v\<in>set vals. take_bit (nat W) v = v"
    and "cur \<noteq> []"
  shows "\<exists>env' f. run_assigns W bus (fst (tree_loop stage cur)) env = Some env' \<and>
           snd (tree_loop stage cur) = [f] \<and> env' f = Some (xor_integers vals)"
  using assms
proof (induction stage cur arbitrary: vals env rule: tree_loop.induct)
  case (1 stage cur)
  show ?case
  proof (cases "1 < length cur")
    case False
    then obtain w where cur: "cur = [w]" using 1(6) by (cases cur) auto
    then obtain v where vals: "vals = [v]" using 1(2) by (cases vals) auto
    have "env w = Some v" using 1(3)[rule_format, of 0] cur vals by simp
    then show ?thesis using cur vals by (simp add: tree_loop.simps)
  next
    case True
    obtain lines next_level where ts: "tree_stage stage cur [] = (lines, next_level)" by fastforce
    have ne: "\<forall>w\<in>set cur. \<forall>k. w \<noteq> Vec stage k" using 1(4) by fastforce
    from tree_stage_run[OF 1(2) 1(3) ne 1(5), of bus "[]"] obtain env1 where
      S: "run_assigns W bus lines env = Some env1"
         "next_level = map (\<lambda>k. Vec stage (int k)) [0..<length (pairxor vals)]"
         "\<forall>k<length (pairxor vals). env1 (Vec stage (int k)) = Some (pairxor vals ! k)"
      by (auto simp add: ts)
    have l: "length (pairxor vals) = length next_level" using S(2) by simp
    have e: "\<forall>j<length next_level. env1 (next_level ! j) = Some (pairxor vals ! j)"
      using S(3) by (simp add: S(2))
    have st: "\<forall>w\<in>set next_level. \<exists>s k. w = Vec s k \<and> s < stage + 1"
      by (auto simp add: S(2))
    have wd: "\<forall>v\<in>set (pairxor vals). take_bit (nat W) v = v" by (rule pairxor_width[OF 1(5)])
    have nn: "next_level \<noteq> []"
    proof -
      have "0 < length (pairxor vals)" using True 1(2) by (simp add: length_pairxor)
      then show ?thesis using l by auto
    qed
    from 1(1)[OF True ts[symmetric] l e st wd nn] obtain env' f where
      IH: "run_assigns W bus (fst (tree_loop (stage + 1) next_level)) env1 = Some env'"
          "snd (tree_loop (stage + 1) next_level) = [f]"
          "env' f = Some (xor_integers (pairxor vals))" by blast
    obtain later fin where tl: "tree_loop (stage + 1) next_level = (later, fin)" by fastforce
    have "run_assigns W bus (fst (tree_loop stage cur)) env = Some env'"
      using True IH(1) S(1) by (subst tree_loop.simps) (simp add: ts tl run_assigns_append)
    moreover have "snd (tree_loop stage cur) = [f]"
      using True IH(2) by (subst tree_loop.simps) (simp add: ts tl)
    ultimately show ?thesis using IH(3) by (simp add: xor_integers_pairxor)
  qed
qed

lemma py_range_Suc: "py_range (int (Suc n)) = py_range (int n) @ [int n]"
  unfolding py_range_def nat_int by simp

lemma unpack_run:
  "\<exists>env'. run_assigns W bus
             (map (\<lambda>i. Assign (Vec 0 i) (Slice ((i + 1) * W - 1) (i * W))) (py_range (int n)))
             Map.empty = Some env' \<and>
          (\<forall>i<n. env' (Vec 0 (int i)) = Some (take_bit (nat W) (drop_bit (i * nat W) bus)))"
proof (induction n)
  case 0
  then show ?case by (simp add: py_range_def)
next
  case (Suc n)
  then obtain env1 where
    IH: "run_assigns W bus
           (map (\<lambda>i. Assign (Vec 0 i) (Slice ((i + 1) * W - 1) (i * W))) (py_range (int n)))
           Map.empty = Some env1"
        "\<forall>i<n. env1 (Vec 0 (int i)) = Some (take_bit (nat W) (drop_bit (i * nat W) bus))"
    by blast
  let ?v = "take_bit (nat W) (take_bit (nat ((int n + 1) * W - 1 - int n * W + 1)) (drop_bit (nat (int n * W)) bus))"
  let ?env' = "env1(Vec 0 (int n) \<mapsto> ?v)"
  have run: "run_assigns W bus
           (map (\<lambda>i. Assign (Vec 0 i) (Slice ((i + 1) * W - 1) (i * W))) (py_range (int (Suc n))))
           Map.empty = Some ?env'"
    unfolding py_range_Suc by (simp add: run_assigns_append IH(1))
  have w: "(int n + 1) * W - 1 - int n * W + 1 = W" by (simp add: algebra_simps)
  have l: "nat (int n * W) = n * nat W" by (simp add: nat_mult_distrib)
  have v: "?v = take_bit (nat W) (drop_bit (n * nat W) bus)"
    unfolding w l by simp
  have "\<forall>i<Suc n. ?env' (Vec 0 (int i)) = Some (take_bit (nat W) (drop_bit (i * nat W) bus))"
  proof (intro allI impI)
    fix i assume "i < Suc n"
    then consider "i = n" | "i < n" by linarith
    then show "?env' (Vec 0 (int i)) = Some (take_bit (nat W) (drop_bit (i * nat W) bus))"
    proof cases
      case 1 then show ?thesis using v by simp
    next
      case 2 then show ?thesis using IH(2) by simp
    qed
  qed
  with run show ?case by blast
qed

lemma verilog_vector_snoc:
  "int_list_to_verilog_vector (vs @ [v]) W =
     push_bit (nat W) (int_list_to_verilog_vector vs W) OR take_bit (nat W) v"
  by (simp add: int_list_to_verilog_vector_def)

lemma lane_of_verilog_vector:
  assumes "\<forall>v\<in>set vs. take_bit (nat W) v = v"
  shows "i < length vs \<Longrightarrow>
         take_bit (nat W) (drop_bit (i * nat W) (int_list_to_verilog_vector vs W)) = rev vs ! i"
  using assms
proof (induction vs arbitrary: i rule: rev_induct)
  case Nil
  then show ?case by simp
next
  case (snoc v vs)
  let ?b = "int_list_to_verilog_vector vs W"
  have tv: "take_bit (nat W) v = v" using snoc.prems(2) by simp
  show ?case
  proof (cases i)
    case 0
    have "take_bit (nat W) (push_bit (nat W) ?b OR v) = v"
      by (simp add: take_bit_or take_bit_push_bit tv)
    then show ?thesis using 0 by (simp add: verilog_vector_snoc tv)
  next
    case (Suc j)
    then have j: "j < length vs" using snoc.prems(1) by simp
    have d: "drop_bit (nat W) (push_bit (nat W) ?b OR v) = ?b"
    proof -
      have "drop_bit (nat W) v = 0"
        by (subst tv[symmetric]) (simp add: drop_bit_take_bit)
      then show ?thesis by (simp add: drop_bit_or drop_bit_push_bit)
    qed
    have "drop_bit (Suc j * nat W) (push_bit (nat W) ?b OR v) =
            drop_bit (j * nat W) (drop_bit (nat W) (push_bit (nat W) ?b OR v))"
      by (simp add: drop_bit_drop_bit add.commute)
    also have "\<dots> = drop_bit (j * nat W) ?b" by (simp only: d)
    finally have "take_bit (nat W) (drop_bit (Suc j * nat W) (push_bit (nat W) ?b OR v)) = rev vs ! j"
      using snoc.IH[OF j] snoc.prems(2) by simp
    then show ?thesis using Suc by (simp add: verilog_vector_snoc tv)
  qed
qed

lemma xor_integers_width:
  "\<forall>v\<in>set vs. take_bit n v = v \<Longrightarrow> take_bit n (xor_integers vs) = xor_integers vs"
  by (induction vs) (simp_all add: take_bit_xor)

lemma xor_tree_generate_src_run:
  assumes vs: "vs \<noteq> []" and wd: "\<forall>v\<in>set vs. take_bit (nat W) v = v"
  shows "\<exists>m. xor_tree_generate_src (int (length vs)) W = Inr m \<and>
           xor_tree_output m (int_list_to_verilog_vector vs W) = Some (xor_integers vs)"
proof -
  define n where "n = length vs"
  define bus where "bus = int_list_to_verilog_vector vs W"
  define unpack where "unpack = map (\<lambda>i. Assign (Vec 0 i) (Slice ((i + 1) * W - 1) (i * W))) (py_range (int n))"
  define cur where "cur = map (\<lambda>i. Vec 0 i) (py_range (int n))"
  from unpack_run[of W bus n] obtain env0 where
    U: "run_assigns W bus unpack Map.empty = Some env0"
       "\<forall>i<n. env0 (Vec 0 (int i)) = Some (take_bit (nat W) (drop_bit (i * nat W) bus))"
    unfolding unpack_def by blast
  have lanes: "\<forall>i<n. env0 (Vec 0 (int i)) = Some (rev vs ! i)"
    using U(2) lane_of_verilog_vector[OF wd] by (simp add: bus_def n_def)
  have c: "cur = map (\<lambda>k. Vec 0 (int k)) [0..<n]" by (simp add: cur_def py_range_def)
  have 1: "length (rev vs) = length cur" by (simp add: c n_def)
  have 2: "\<forall>j<length cur. env0 (cur ! j) = Some (rev vs ! j)" using lanes by (simp add: c)
  have 3: "\<forall>w\<in>set cur. \<exists>s k. w = Vec s k \<and> s < 1" by (auto simp add: c)
  have 4: "\<forall>v\<in>set (rev vs). take_bit (nat W) v = v" using wd by simp
  have 5: "cur \<noteq> []" using vs by (simp add: c n_def)
  from tree_loop_run[OF 1 2 3 4 5, of bus] obtain env' f where
    T: "run_assigns W bus (fst (tree_loop 1 cur)) env0 = Some env'"
       "snd (tree_loop 1 cur) = [f]" "env' f = Some (xor_integers (rev vs))" by blast
  obtain tree fin where tl: "tree_loop 1 cur = (tree, fin)" by fastforce
  have fin: "fin = [f]" and tr: "run_assigns W bus tree env0 = Some env'"
    using T(1,2) by (simp_all add: tl)
  define m where "m = \<lparr> xt_num_vectors = int n, xt_bit_length = W, xt_in_width = int n * W,
                        xt_out_width = W, xt_body = unpack @ tree @ [Assign OutXor (Ref f)] \<rparr>"
  have tl': "tree_loop 1 (map (Vec 0) (py_range (int (length vs)))) = (tree, [f])"
    using tl fin by (simp add: cur_def n_def)
  have g: "xor_tree_generate_src (int (length vs)) W = Inr m"
    by (simp add: xor_tree_generate_src_def Let_def tl' m_def unpack_def n_def)
  have x: "take_bit (nat W) (xor_integers (rev vs)) = xor_integers vs"
    using xor_integers_width[OF 4] by (simp add: xor_integers_rev)
  have "run_assigns W bus (xt_body m) Map.empty = Some (env'(OutXor \<mapsto> xor_integers vs))"
    by (simp add: m_def run_assigns_append U(1) tr T(3) x)
  then have "xor_tree_output m bus = Some (xor_integers vs)"
    by (simp add: xor_tree_output_def m_def)
  with g show ?thesis unfolding bus_def by blast
qed

text \<open>
  Claim C4.  For \<open>N \<ge> 1\<close> vectors of width \<open>W \<ge> 1\<close> the XOR tree generator
  returns a module, and the balanced tree of pairwise XOR stages that it emits
  (adjacent nets paired at each stage, a last unpaired net passed on unchanged)
  puts on \<open>out_xor\<close> the value that \<open>xor_integers\<close> computes by XOR-ing the
  vectors one after the other; for a single vector this is the vector itself.
\<close>

theorem xor_tree_equals_xor_integers:
  assumes "1 \<le> num_vectors" and "1 \<le> W" and "int (length int_list) = num_vectors"
    and "\<forall>v\<in>set int_list. 0 \<le> v \<and> v < 2 ^ nat W"
  shows "\<exists>m. xor_tree_generate_src num_vectors W = Inr m \<and>
           xor_tree_output m (int_list_to_verilog_vector int_list W) = Some (xor_integers int_list) \<and>
           (\<forall>v. int_list = [v] \<longrightarrow> xor_tree_output m (int_list_to_verilog_vector int_list W) = Some v)"
proof -
  have ne: "int_list \<noteq> []" using assms(1,3) by auto
  have wd: "\<forall>v\<in>set int_list. take_bit (nat W) v = v"
    using assms(4) by (simp add: take_bit_int_eq_self)
  from xor_tree_generate_src_run[OF ne wd] obtain m where
    m: "xor_tree_generate_src num_vectors W = Inr m"
       "xor_tree_output m (int_list_to_verilog_vector int_list W) = Some (xor_integers int_list)"
    unfolding assms(3) by blast
  have "\<forall>v. int_list = [v] \<longrightarrow> xor_tree_output m (int_list_to_verilog_vector int_list W) = Some v"
    using m(2) by auto
  with m show ?thesis by blast
qed

theorem xor_tree_equals_xor_integers_witness:
  "(1::int) \<le> 3 \<and> (1::int) \<le> 4 \<and> int (length [5, 9, 3 :: int]) = 3 \<and>
   list_all (\<lambda>v. 0 \<le> v \<and> v < 2 ^ nat 4) [5, 9, 3 :: int] \<and>
   (\<exists>m. xor_tree_generate_src 3 4 = Inr m \<and>
        xor_tree_output m (int_list_to_verilog_vector [5, 9, 3] 4) = Some 15) \<and>
   xor_integers [5, 9, 3] = 15"
proof -
  have x: "xor_integers [5, 9, 3] = 15" by (simp add: xor_integers_def)
  from xor_tree_equals_xor_integers[of 3 4 "[5, 9, 3]"] x show ?thesis by simp
qed

section \<open>The affine generator: output width and number of vectors\<close>

lemma poly_degree_half:
  assumes "0 < n div 2"
  shows "poly_degree (int n) = poly_degree (int (n div 2)) + 1"
proof -
  have n: "0 < int n" using assms by (cases "n = 0") auto
  have "bitlen (int n) = bitlen (int n div 2) + 1"
    using n by (subst compute_bitlen) simp
  moreover have "int n div 2 = int (n div 2)" by simp
  ultimately show ?thesis using assms n
    by (simp add: poly_degree_def int_bit_length_def)
qed

lemma poly_degree_one: "poly_degree 1 = 0"
  by code_simp

lemma set_bits_from_props:
  "0 < n \<Longrightarrow> set_bits_from n pos \<noteq> [] \<and>
     last (set_bits_from n pos) = pos + poly_degree (int n) \<and>
     (\<forall>x\<in>set (set_bits_from n pos). x \<le> pos + poly_degree (int n))"
proof (induction n pos rule: set_bits_from.induct)
  case (1 n pos)
  have s: "set_bits_from n pos = (if odd n then [pos] else []) @ set_bits_from (n div 2) (pos + 1)"
    using 1(2) by (subst set_bits_from.simps) simp
  show ?case
  proof (cases "n div 2 = 0")
    case True
    then have n1: "n = 1" using 1(2) by linarith
    have z: "set_bits_from 0 (pos + 1) = []" by (subst set_bits_from.simps) simp
    show ?thesis unfolding s using n1 by (simp add: z poly_degree_one)
  next
    case False
    then have h: "0 < n div 2" by simp
    have n0: "n \<noteq> 0" using 1(2) by simp
    note IH = 1(1)[OF n0 h]
    have d: "pos + poly_degree (int n) = pos + 1 + poly_degree (int (n div 2))"
      using poly_degree_half[OF h] by simp
    have p: "0 \<le> poly_degree (int n)" using poly_degree_bounds(1)[of "int n"] 1(2) by simp
    have e: "set_bits_from (n div 2) (pos + 1) \<noteq> []"
      and l: "last (set_bits_from (n div 2) (pos + 1)) = pos + 1 + poly_degree (int (n div 2))"
      and b: "\<forall>x\<in>set (set_bits_from (n div 2) (pos + 1)). x \<le> pos + 1 + poly_degree (int (n div 2))"
      using IH by blast+
    have 1: "set_bits_from n pos \<noteq> []" unfolding s using e by simp
    have 2: "last (set_bits_from n pos) = pos + poly_degree (int n)"
      unfolding s d using e l by simp
    have 3: "\<forall>x\<in>set (set_bits_from n pos). x \<le> pos + poly_degree (int n)"
      unfolding s d using b p d by auto
    from 1 2 3 show ?thesis by blast
  qed
qed

lemma get_bit_positions_props:
  assumes "1 \<le> a"
  shows "\<exists>S. get_bit_positions a = Some S \<and> S \<noteq> [] \<and> last S = poly_degree a \<and>
           Max (set S) = poly_degree a"
proof -
  define S where "S = set_bits_from (nat a) 0"
  have g: "get_bit_positions a = Some S" using assms by (simp add: get_bit_positions_eq S_def)
  have n: "0 < nat a" using assms by simp
  have a: "int (nat a) = a" using assms by simp
  from set_bits_from_props[OF n, of 0] have
    P: "S \<noteq> []" "last S = poly_degree a" "\<forall>x\<in>set S. x \<le> poly_degree a"
    unfolding a S_def by simp_all
  have "poly_degree a \<in> set S" using last_in_set[OF P(1)] P(2) by simp
  then have "Max (set S) = poly_degree a" using P(3) by (intro Max_eqI) auto
  with g P show ?thesis by blast
qed

lemma length_py_enumerate [simp]: "length (py_enumerate xs) = length xs"
  by (simp add: py_enumerate_def)

text \<open>
  Claim C3.  For every constant \<open>a \<ge> 1\<close>, \<open>c \<ge> 0\<close> and input width
  \<open>bit_length \<ge> 1\<close> the affine generator returns a module whose output width is
  the largest bit position of \<open>a\<close> (the degree of \<open>a\<close>) plus \<open>bit_length\<close>, and
  whose XOR tree has one vector per bit position of \<open>a\<close>, plus one for the constant
  when \<open>c \<noteq> 0\<close>; when \<open>c = 0\<close> no constant lane is emitted at all.
\<close>

theorem affine_width_and_vectors:
  assumes "1 \<le> a" and "0 \<le> c" and "1 \<le> bit_length"
  shows "\<exists>S m. get_bit_positions a = Some S \<and> S \<noteq> [] \<and>
           poly_affine_generate_src a c bit_length = Some (Inr m) \<and>
           pa_out_bit_length m = Max (set S) + bit_length \<and>
           pa_out_bit_length m = poly_degree a + bit_length \<and>
           pa_xor_tree_bit_length m = pa_out_bit_length m \<and>
           pa_xor_tree_num_vectors m = (if c \<noteq> 0 then int (length S) + 1 else int (length S)) \<and>
           int (length (pa_lanes m)) = pa_xor_tree_num_vectors m \<and>
           (c = 0 \<longrightarrow> (\<forall>l\<in>set (pa_lanes m). \<forall>hi lo k. l \<noteq> LaneAssign hi lo (Const k)))"
proof -
  from get_bit_positions_props[OF assms(1)] obtain S where
    S: "get_bit_positions a = Some S" "S \<noteq> []" "last S = poly_degree a"
       "Max (set S) = poly_degree a" by blast
  obtain t ts where r: "rev S = t # ts" using S(2) by (cases "rev S") auto
  have "hd (rev S) = last S" by (rule hd_rev)
  then have t: "t = poly_degree a" using S(3) r by simp
  have l: "length S = length (t # ts)" using r by (metis length_rev)
  show ?thesis
    using S r t l
    by (auto simp add: poly_affine_generate_src_def Let_def py_enumerate_def
        split: prod.splits dest!: in_set_zipE)
qed

theorem affine_width_and_vectors_witness:
  "(1::int) \<le> 17 \<and> (0::int) \<le> 1 \<and> (1::int) \<le> 16 \<and>
   get_bit_positions 17 = Some [0, 4] \<and>
   (\<exists>m. poly_affine_generate_src 17 1 16 = Some (Inr m) \<and>
        pa_out_bit_length m = 20 \<and> pa_xor_tree_bit_length m = 20 \<and>
        pa_xor_tree_num_vectors m = 3 \<and> length (pa_lanes m) = 3)"
proof -
  have g: "get_bit_positions 17 = Some [0, 4]" by code_simp
  from affine_width_and_vectors[of 17 1 16] g show ?thesis by auto
qed

section \<open>The modular reduction generator: constants and XOR tree\<close>

lemma reduction_constants_loop_eq:
  assumes h: "1 \<le> h"
  shows "\<forall>i\<in>set xs. 0 \<le> d + i \<Longrightarrow>
         \<exists>cs. reduction_constants_loop h d xs acc = Some (Inr (acc @ cs)) \<and>
              length cs = length xs \<and>
              (\<forall>j<length xs. poly_mod (push_bit (nat (d + xs ! j)) 1) h = Some (cs ! j))"
proof (induction xs arbitrary: acc)
  case Nil
  then show ?case by simp
next
  case (Cons i xs)
  have i0: "0 \<le> d + i" using Cons.prems by simp
  have "(0::int) \<le> push_bit (nat (d + i)) 1" by simp
  from poly_mod_total[OF this h] obtain c where
    c: "poly_mod (push_bit (nat (d + i)) 1) h = Some c" by blast
  have "\<forall>i\<in>set xs. 0 \<le> d + i" using Cons.prems by simp
  from Cons.IH[OF this, of "acc @ [c]"] obtain cs where
    cs: "reduction_constants_loop h d xs (acc @ [c]) = Some (Inr ((acc @ [c]) @ cs))"
        "length cs = length xs"
        "\<forall>j<length xs. poly_mod (push_bit (nat (d + xs ! j)) 1) h = Some (cs ! j)" by blast
  have 1: "reduction_constants_loop h d (i # xs) acc = Some (Inr (acc @ (c # cs)))"
    using i0 c cs(1) by simp
  have 2: "length (c # cs) = length (i # xs)" using cs(2) by simp
  have 3: "\<forall>j<length (i # xs). poly_mod (push_bit (nat (d + (i # xs) ! j)) 1) h = Some ((c # cs) ! j)"
  proof (intro allI impI)
    fix j assume "j < length (i # xs)"
    then show "poly_mod (push_bit (nat (d + (i # xs) ! j)) 1) h = Some ((c # cs) ! j)"
      using c cs(3) by (cases j) simp_all
  qed
  from 1 2 3 show ?case by blast
qed

lemma poly_degree_bit_length: "poly_degree h = int_bit_length h - 1"
  by (simp add: poly_degree_def int_bit_length_def)

lemma get_reduction_constants_eq:
  assumes h: "1 \<le> h" and b: "poly_degree h \<le> b"
  shows "\<exists>cs. get_reduction_constants h b = Some (Inr cs) \<and>
           length cs = nat (b - poly_degree h) \<and>
           (\<forall>i<nat (b - poly_degree h).
              poly_mod (push_bit (nat (poly_degree h) + i) 1) h = Some (cs ! i))"
proof -
  have d0: "0 \<le> poly_degree h" using poly_degree_bounds(1)[of h] h by simp
  have m: "max (b - poly_degree h) 0 = b - poly_degree h" using b by simp
  have nn: "\<forall>i\<in>set (py_range (b - poly_degree h)). 0 \<le> poly_degree h + i"
    using d0 by (auto simp add: py_range_def)
  from reduction_constants_loop_eq[OF h nn, of "[]"] obtain cs where
    cs: "reduction_constants_loop h (poly_degree h) (py_range (b - poly_degree h)) [] = Some (Inr cs)"
        "length cs = length (py_range (b - poly_degree h))"
        "\<forall>j<length (py_range (b - poly_degree h)).
            poly_mod (push_bit (nat (poly_degree h + py_range (b - poly_degree h) ! j)) 1) h = Some (cs ! j)"
    by auto
  have 1: "get_reduction_constants h b = Some (Inr cs)"
    using cs(1) by (simp add: get_reduction_constants_def Let_def m)
  have 2: "length cs = nat (b - poly_degree h)" using cs(2) by (simp add: py_range_def)
  have 3: "\<forall>i<nat (b - poly_degree h).
              poly_mod (push_bit (nat (poly_degree h) + i) 1) h = Some (cs ! i)"
  proof (intro allI impI)
    fix i assume i: "i < nat (b - poly_degree h)"
    then have "poly_mod (push_bit (nat (poly_degree h + py_range (b - poly_degree h) ! i)) 1) h = Some (cs ! i)"
      using cs(3) by (simp add: py_range_def)
    moreover have "nat (poly_degree h + py_range (b - poly_degree h) ! i) = nat (poly_degree h) + i"
      using i d0 by (simp add: py_range_def nat_add_distrib)
    ultimately show "poly_mod (push_bit (nat (poly_degree h) + i) 1) h = Some (cs ! i)" by simp
  qed
  from 1 2 3 show ?thesis by blast
qed


text \<open>
  Claim C2.  For a modulus \<open>h\<close> of degree \<open>D \<ge> 1\<close> and an input width
  \<open>b \<ge> D\<close> the reducer precomputes exactly \<open>b - D\<close> constants, the
  \<open>i\<close>-th one being \<open>poly_mod (1 << (D + i)) h\<close> (so the bit positions
  \<open>D, \<dots>, b - 1\<close> in ascending order), gates the \<open>i\<close>-th constant by input bit
  \<open>D + i\<close>, and instantiates one XOR tree of \<open>b - D + 1\<close> vectors of width
  \<open>D\<close>.
\<close>

theorem reducer_constants_and_tree:
  assumes "0 \<le> h" and "1 \<le> poly_degree h" and "poly_degree h \<le> b"
  shows "\<exists>cs m. get_reduction_constants h b = Some (Inr cs) \<and>
           length cs = nat (b - poly_degree h) \<and>
           (\<forall>i<nat (b - poly_degree h).
              poly_mod (push_bit (nat (poly_degree h) + i) 1) h = Some (cs ! i)) \<and>
           poly_mod_generate_src h b = Some (Inr m) \<and>
           pm_reduction_constants m = cs \<and>
           pm_xor_tree_num_vectors m = b - poly_degree h + 1 \<and>
           pm_xor_tree_bit_length m = poly_degree h \<and>
           int (length (pm_lanes m)) = b - poly_degree h + 1 \<and>
           (\<forall>i<nat (b - poly_degree h).
              pm_lanes m ! i =
                LaneAssign ((int i + 1) * poly_degree h - 1) (int i * poly_degree h)
                  (GatedConst (poly_degree h + int i) (cs ! i))) \<and>
           last (pm_lanes m) =
             LaneAssign ((b - poly_degree h + 1) * poly_degree h - 1)
               ((b - poly_degree h) * poly_degree h) (LowBits (poly_degree h - 1) 0)"
proof -
  have h1: "1 \<le> h"
  proof (rule ccontr)
    assume "\<not> 1 \<le> h"
    then have "h = 0" using assms(1) by simp
    then show False using assms(2) by (simp add: poly_degree_def)
  qed
  from get_reduction_constants_eq[OF h1 assms(3)] obtain cs where
    cs: "get_reduction_constants h b = Some (Inr cs)"
        "length cs = nat (b - poly_degree h)"
        "\<forall>i<nat (b - poly_degree h).
            poly_mod (push_bit (nat (poly_degree h) + i) 1) h = Some (cs ! i)" by blast
  define m where "m = \<lparr> pm_y_bit_length = b, pm_in_bit_length = b,
      pm_out_bit_length = poly_degree h, pm_reduction_constants = cs,
      pm_xor_tree_num_vectors = int (length cs) + 1,
      pm_xor_tree_bit_length = poly_degree h,
      pm_lanes = map (\<lambda>(i, constant).
                   LaneAssign ((i + 1) * poly_degree h - 1) (i * poly_degree h)
                     (GatedConst (poly_degree h + i) constant))
                 (py_enumerate cs)
               @ [LaneAssign ((int (length cs) + 1) * poly_degree h - 1)
                    ((int (length cs) + 1 - 1) * poly_degree h)
                    (LowBits (poly_degree h - 1) 0)] \<rparr>"
  have g: "poly_mod_generate_src h b = Some (Inr m)"
    by (simp add: poly_mod_generate_src_def Let_def cs(1) m_def poly_degree_bit_length)
  have l: "int (length cs) = b - poly_degree h" using cs(2) assms(3) by simp
  have 1: "pm_reduction_constants m = cs" by (simp add: m_def)
  have 2: "pm_xor_tree_num_vectors m = b - poly_degree h + 1" by (simp add: m_def l)
  have 3: "pm_xor_tree_bit_length m = poly_degree h" by (simp add: m_def)
  have 4: "int (length (pm_lanes m)) = b - poly_degree h + 1" by (simp add: m_def l)
  have 5: "\<forall>i<nat (b - poly_degree h).
              pm_lanes m ! i =
                LaneAssign ((int i + 1) * poly_degree h - 1) (int i * poly_degree h)
                  (GatedConst (poly_degree h + int i) (cs ! i))"
    using cs(2) by (simp add: m_def nth_append py_enumerate_def)
  have 6: "last (pm_lanes m) =
             LaneAssign ((b - poly_degree h + 1) * poly_degree h - 1)
               ((b - poly_degree h) * poly_degree h) (LowBits (poly_degree h - 1) 0)"
    by (simp add: m_def l)
  from cs g 1 2 3 4 5 6 show ?thesis by blast
qed

theorem reducer_constants_and_tree_witness:
  "(0::int) \<le> 285 \<and> 1 \<le> poly_degree 285 \<and> poly_degree 285 \<le> 12 \<and> poly_degree 285 = 8 \<and>
   get_reduction_constants 285 12 = Some (Inr [29, 58, 116, 232]) \<and>
   (\<exists>m. poly_mod_generate_src 285 12 = Some (Inr m) \<and>
        pm_reduction_constants m = [29, 58, 116, 232] \<and>
        pm_xor_tree_num_vectors m = 5 \<and> pm_xor_tree_bit_length m = 8 \<and>
        length (pm_lanes m) = 5)"
proof -
  have d: "poly_degree 285 = 8" by code_simp
  have c: "get_reduction_constants 285 12 = Some (Inr [29, 58, 116, 232])" by code_simp
  from reducer_constants_and_tree[of 285 12] d c show ?thesis by auto
qed

section \<open>Reproducible test benches\<close>

lemma generate_random_integers_reseeds:
  "generate_random_integers R num_vectors bit_length seed g =
   generate_random_integers R num_vectors bit_length seed g'"
  by (simp add: generate_random_integers_def)

lemma draw_code_input_reseeds:
  "draw_code_input R bit_length seed g = draw_code_input R bit_length seed g'"
  unfolding draw_code_input_def
  by (simp only: generate_random_integers_reseeds[of R 1 bit_length seed g g'])

text \<open>
  Claim C10.  The output of every generator is determined by its parameters.  The
  five \<open>generate_src\<close> functions do not use the random generator at all (they are
  functions of their parameters only), and every \<open>generate_tb\<close> reseeds the global
  generator with 42 before drawing its stimulus, so that its output, and the state in
  which it leaves the generator, are the same whatever the state of the generator was
  when it was called: two invocations with the same parameters give the same text.
\<close>

theorem generators_deterministic:
  "xor_tree_generate_tb R num_vectors bit_length g = xor_tree_generate_tb R num_vectors bit_length g' \<and>
   poly_mod_generate_tb R h y_bit_length g = poly_mod_generate_tb R h y_bit_length g' \<and>
   poly_affine_generate_tb R a c bit_length g = poly_affine_generate_tb R a c bit_length g' \<and>
   poly_affine_mod_generate_tb R a c h bit_length g = poly_affine_mod_generate_tb R a c h bit_length g' \<and>
   prng_generate_tb R a c h g = prng_generate_tb R a c h g'"
proof (intro conjI)
  show "xor_tree_generate_tb R num_vectors bit_length g = xor_tree_generate_tb R num_vectors bit_length g'"
    unfolding xor_tree_generate_tb_def xor_tree_random_computation_example_def
    by (simp only: generate_random_integers_reseeds[of R num_vectors bit_length 42 g g'])
  show "poly_mod_generate_tb R h y_bit_length g = poly_mod_generate_tb R h y_bit_length g'"
    unfolding poly_mod_generate_tb_def poly_mod_random_computation_example_def
    by (simp only: draw_code_input_reseeds[of R y_bit_length 42 g g'])
  show "poly_affine_generate_tb R a c bit_length g = poly_affine_generate_tb R a c bit_length g'"
    unfolding poly_affine_generate_tb_def poly_affine_random_computation_example_def
    by (simp only: draw_code_input_reseeds[of R bit_length 42 g g'])
  show "poly_affine_mod_generate_tb R a c h bit_length g = poly_affine_mod_generate_tb R a c h bit_length g'"
    unfolding poly_affine_mod_generate_tb_def poly_affine_mod_random_computation_example_def
    by (simp only: draw_code_input_reseeds[of R bit_length 42 g g'])
  show "prng_generate_tb R a c h g = prng_generate_tb R a c h g'"
    unfolding prng_generate_tb_def prng_random_computation_example_def Let_def
    by (simp only: draw_code_input_reseeds[of R "poly_degree h" 42 g g'])
qed

section \<open>The PRNG recurrence: software iteration and state register\<close>

lemma poly_affine_mod_total:
  assumes "0 \<le> a" "0 \<le> c" "0 \<le> p" "1 \<le> h"
  shows "\<exists>r. poly_affine_mod a p c h = Some r \<and> 0 \<le> r \<and> poly_degree r < poly_degree h"
proof -
  have z: "0 \<le> int (clmul (nat a) (nat p)) XOR c" using assms(2) by simp
  from poly_mod_total[OF z assms(4)] show ?thesis
    by (simp add: poly_affine_mod_def poly_affine_clmul[OF assms(1) assms(3)])
qed

lemma funpow_None:
  fixes f :: "'a \<Rightarrow> 'a option"
  shows "((\<lambda>s. case s of None \<Rightarrow> None | Some p \<Rightarrow> f p) ^^ k) None = None"
proof (induction k)
  case 0
  show ?case by simp
next
  case (Suc k)
  show ?case unfolding funpow.simps o_apply Suc.IH by simp
qed

lemma prng_iterate_eq: "prng_iterate a c h k S = affineMod_iterated a c h k S"
proof (induction k arbitrary: S)
  case 0
  then show ?case by (simp add: affineMod_iterated_def)
next
  case (Suc k)
  let ?f = "\<lambda>s. case s of None \<Rightarrow> None | Some p \<Rightarrow> poly_affine_mod a p c h"
  have "affineMod_iterated a c h (Suc k) S = (?f ^^ k) (?f (Some S))"
    unfolding affineMod_iterated_def by (simp only: funpow_Suc_right o_apply)
  also have "\<dots> = (?f ^^ k) (poly_affine_mod a S c h)" by simp
  finally have e: "affineMod_iterated a c h (Suc k) S = (?f ^^ k) (poly_affine_mod a S c h)" .
  show ?case
  proof (cases "poly_affine_mod a S c h")
    case None
    then show ?thesis using e by (simp add: funpow_None)
  next
    case (Some r)
    then show ?thesis using e Suc.IH[of r] by (simp add: affineMod_iterated_def)
  qed
qed

lemma prng_iterate_total:
  assumes "0 \<le> a" "0 \<le> c" "1 \<le> h"
  shows "0 \<le> S \<Longrightarrow> \<exists>E. prng_iterate a c h k S = Some E \<and> 0 \<le> E"
proof (induction k arbitrary: S)
  case 0
  then show ?case by simp
next
  case (Suc k)
  from poly_affine_mod_total[OF assms(1,2) Suc.prems assms(3)] obtain r where
    r: "poly_affine_mod a S c h = Some r" "0 \<le> r" by blast
  from Suc.IH[OF r(2)] show ?case using r(1) by simp
qed

lemma prng_clock_enabled:
  fixes F :: "int \<Rightarrow> int option"
  shows "prng_clock F seed (replicate k (False, True)) (Some S) =
     ((\<lambda>s. case s of None \<Rightarrow> None | Some p \<Rightarrow> F p) ^^ k) (Some S)"
proof (induction k arbitrary: S)
  case 0
  then show ?case by simp
next
  case (Suc k)
  let ?f = "\<lambda>s. case s of None \<Rightarrow> None | Some p \<Rightarrow> F p"
  have n: "prng_clock F seed edges None = None" if "\<forall>e\<in>set edges. e = (False, True)" for edges
    using that by (induction edges) (auto simp add: prng_posedge_def)
  have "prng_clock F seed (replicate (Suc k) (False, True)) (Some S) =
          prng_clock F seed (replicate k (False, True)) (F S)"
    by (simp add: prng_posedge_def)
  also have "\<dots> = (?f ^^ k) (F S)"
  proof (cases "F S")
    case None
    then show ?thesis using n[of "replicate k (False, True)"] by (simp add: funpow_None)
  next
    case (Some r)
    then show ?thesis using Suc.IH[of r] by simp
  qed
  also have "\<dots> = (?f ^^ Suc k) (Some S)" by (simp only: funpow_Suc_right o_apply) simp
  finally show ?case .
qed

lemma prng_clock_reset_then_enabled:
  "prng_clock (\<lambda>p. poly_affine_mod a p c h) S ((True, en) # replicate k (False, True)) st =
     affineMod_iterated a c h k S"
  by (simp add: prng_posedge_def prng_clock_enabled affineMod_iterated_def)

lemma prng_tb_edges_run:
  "prng_clock (\<lambda>p. poly_affine_mod a p c h) S prng_tb_edges st = affineMod_iterated a c h 100 S"
proof -
  have "prng_clock (\<lambda>p. poly_affine_mod a p c h) S prng_tb_edges st =
          prng_clock (\<lambda>p. poly_affine_mod a p c h) S ((True, False) # replicate 100 (False, True))
            (prng_posedge (\<lambda>p. poly_affine_mod a p c h) False False S st)"
    by (simp add: prng_tb_edges_def)
  then show ?thesis by (simp only: prng_clock_reset_then_enabled)
qed

lemma draw_code_input_range:
  assumes R: "\<forall>g lo hi. lo \<le> hi \<longrightarrow> lo \<le> fst (randint R g lo hi) \<and> fst (randint R g lo hi) \<le> hi"
    and b: "0 \<le> bit_length"
  shows "\<exists>S g1. draw_code_input R bit_length seed g = (Inr S, g1) \<and> 0 \<le> S \<and> S < 2 ^ nat bit_length"
proof -
  obtain v g1 where d: "randint R (seed_state R seed) 0 (2 ^ nat bit_length - 1) = (v, g1)"
    by fastforce
  have le: "(0::int) \<le> 2 ^ nat bit_length - 1" by simp
  from R[rule_format, OF le, of "seed_state R seed"] d have v: "0 \<le> v" "v \<le> 2 ^ nat bit_length - 1"
    by simp_all
  have "draw_code_input R bit_length seed g = (Inr v, g1)"
    using b d by (simp add: draw_code_input_def generate_random_integers_def Let_def)
  then show ?thesis using v by auto
qed

section \<open>Rejected requests\<close>

lemma xor_tree_generate_src_no_vectors:
  "num_vectors \<le> 0 \<Longrightarrow> xor_tree_generate_src num_vectors W = Inl IndexError"
proof -
  assume "num_vectors \<le> 0"
  then have r: "py_range num_vectors = []" by (simp add: py_range_def)
  have t: "tree_loop 1 [] = ([], [])" by (subst tree_loop.simps) simp
  show ?thesis by (simp add: xor_tree_generate_src_def Let_def r t)
qed

text \<open>
  Claim C8.  When the reducer is requested with an input width below the degree of
  the modulus, the number of vectors it asks the XOR tree generator for is 0, the
  XOR tree generator raises (\<open>IndexError\<close>, at \<open>current_level[0]\<close>), and the whole
  request ends with that exception before any file is written: the files are as
  before (only the two directories have been created), and the random generator
  has not been used.
\<close>

theorem reducer_narrow_input_rejected:
  assumes "y_bit_length < poly_degree h"
  shows "max (y_bit_length - (int_bit_length h - 1) + 1) 0 = 0 \<and>
         xor_tree_generate_src 0 (int_bit_length h - 1) = Inl IndexError \<and>
         (\<exists>w'. poly_mod_generate_verilog_and_tb_to_files R h y_bit_length save_dir w
                  = Some (Inl IndexError, w') \<and>
               files w' = files w \<and> rng w' = rng w \<and>
               dirs w' = insert (save_dir @ ''/tb'') (insert (save_dir @ ''/src'') (dirs w)))"
proof -
  have m: "max (y_bit_length - (int_bit_length h - 1) + 1) 0 = 0"
    using assms by (simp add: poly_degree_bit_length)
  have x: "xor_tree_generate_src 0 (int_bit_length h - 1) = Inl IndexError"
    by (rule xor_tree_generate_src_no_vectors) simp
  let ?w' = "makedirs (save_dir @ ''/tb'') (makedirs (save_dir @ ''/src'') w)"
  have s: "poly_mod_generate_submodules_verilog_and_tb_to_files R h y_bit_length save_dir w
             = (Inl IndexError, ?w')"
    unfolding poly_mod_generate_submodules_verilog_and_tb_to_files_def Let_def m
      xor_tree_generate_verilog_and_tb_to_files_def x
    by simp
  have "poly_mod_generate_verilog_and_tb_to_files R h y_bit_length save_dir w
          = Some (Inl IndexError, ?w')"
    by (simp add: poly_mod_generate_verilog_and_tb_to_files_def s)
  moreover have "files ?w' = files w" "rng ?w' = rng w"
    "dirs ?w' = insert (save_dir @ ''/tb'') (insert (save_dir @ ''/src'') (dirs w))"
    by (simp_all add: makedirs_def)
  ultimately show ?thesis using m x by blast
qed

theorem reducer_narrow_input_rejected_witness:
  "(5::int) < poly_degree 285 \<and>
   (\<exists>w'. poly_mod_generate_verilog_and_tb_to_files
            \<lparr> seed_state = (\<lambda>s. s), randint = (\<lambda>g lo hi. (lo, g + 1)) \<rparr> 285 5 ''out''
            \<lparr> dirs = {}, files = Map.empty, rng = (0::int) \<rparr> = Some (Inl IndexError, w') \<and>
         files w' = Map.empty \<and> rng w' = 0 \<and> dirs w' = {''out/tb'', ''out/src''})"
proof -
  have d: "poly_degree 285 = 8" by code_simp
  from reducer_narrow_input_rejected[of 5 285
      "\<lparr> seed_state = (\<lambda>s. s), randint = (\<lambda>g lo hi. (lo, g + 1)) \<rparr>" "''out''"
      "\<lparr> dirs = {}, files = Map.empty, rng = (0::int) \<rparr>"] d
  show ?thesis by simp
qed

lemma get_bit_positions_zero: "get_bit_positions 0 = Some []"
  unfolding get_bit_positions_def by (subst get_bit_positions_loop.simps) simp

text \<open>
  Claim C9, as amended.  The core does not accept \<open>a = 0\<close>: for every \<open>c\<close> and
  every input width, \<open>generate_src\<close> of the affine generator raises
  \<open>IndexError\<close> (it reads \<open>a_ones[0]\<close> of the empty list of bit positions) and
  returns no module description, and the request to write the module ends with the
  same exception in \<open>generate_submodules_verilog_and_tb_to_files\<close>, before
  anything is created.
\<close>

theorem affine_zero_raises:
  "poly_affine_generate_src 0 c bit_length = Some (Inl IndexError) \<and>
   poly_affine_generate_verilog_and_tb_to_files R 0 c bit_length save_dir w
     = Some (Inl IndexError, w)"
  by (simp add: poly_affine_generate_src_def poly_affine_generate_verilog_and_tb_to_files_def
      poly_affine_generate_submodules_verilog_and_tb_to_files_def get_bit_positions_zero)

theorem affine_zero_counterexample:
  "\<not> (\<exists>m. poly_affine_generate_src 0 1 8 = Some (Inr m))"
  by (simp add: poly_affine_generate_src_def get_bit_positions_zero)

section \<open>The lanes of an XOR tree instance\<close>

lemma py_enumerate_snoc:
  "py_enumerate (xs @ [x]) = py_enumerate xs @ [(int (length xs), x)]"
  by (simp add: py_enumerate_def)

lemma verilog_vector_truncates:
  "int_list_to_verilog_vector (map (take_bit (nat W)) vs) W = int_list_to_verilog_vector vs W"
proof (induction vs rule: rev_induct)
  case Nil
  then show ?case by simp
next
  case (snoc v vs)
  then show ?case by (simp add: verilog_vector_snoc)
qed

lemma verilog_vector_Cons:
  "int_list_to_verilog_vector (v # xs) W =
     int_list_to_verilog_vector xs W OR push_bit (length xs * nat W) (take_bit (nat W) v)"
proof (induction xs rule: rev_induct)
  case Nil
  have "int_list_to_verilog_vector [v] W = take_bit (nat W) v"
    by (simp add: int_list_to_verilog_vector_def)
  moreover have "int_list_to_verilog_vector [] W = 0" by (simp add: int_list_to_verilog_vector_def)
  ultimately show ?case by simp
next
  case (snoc x xs)
  have "int_list_to_verilog_vector (v # xs @ [x]) W =
          push_bit (nat W) (int_list_to_verilog_vector (v # xs) W) OR take_bit (nat W) x"
    using verilog_vector_snoc[of "v # xs" x W] by simp
  also have "\<dots> = push_bit (nat W) (int_list_to_verilog_vector xs W) OR take_bit (nat W) x
                    OR push_bit (length (xs @ [x]) * nat W) (take_bit (nat W) v)"
    by (simp add: snoc.IH push_bit_or push_bit_push_bit ac_simps)
  finally show ?case by (simp add: verilog_vector_snoc or.assoc)
qed

text \<open>the lanes that the generators emit for a list of sources\<close>

lemma drive_bus_lanes:
  "drive_bus p (map (\<lambda>(i, s). LaneAssign ((i + 1) * W - 1) (i * W) s) (py_enumerate srcs)) =
     int_list_to_verilog_vector (rev (map (eval_lane_source p) srcs)) W"
proof (induction srcs rule: rev_induct)
  case Nil
  then show ?case by (simp add: drive_bus_def py_enumerate_def int_list_to_verilog_vector_def)
next
  case (snoc s srcs)
  let ?n = "length srcs"
  have w: "(int ?n + 1) * W - 1 - int ?n * W + 1 = W" by (simp add: algebra_simps)
  have l: "nat (int ?n * W) = ?n * nat W" by (simp add: nat_mult_distrib)
  have "drive_bus p (map (\<lambda>(i, s). LaneAssign ((i + 1) * W - 1) (i * W) s) (py_enumerate (srcs @ [s]))) =
          drive_lane p (LaneAssign ((int ?n + 1) * W - 1) (int ?n * W) s)
            (drive_bus p (map (\<lambda>(i, s). LaneAssign ((i + 1) * W - 1) (i * W) s) (py_enumerate srcs)))"
    by (simp add: drive_bus_def py_enumerate_snoc)
  also have "\<dots> = int_list_to_verilog_vector (rev (map (eval_lane_source p) srcs)) W
                    OR push_bit (?n * nat W) (take_bit (nat W) (eval_lane_source p s))"
    unfolding snoc.IH drive_lane.simps w l by simp
  also have "\<dots> = int_list_to_verilog_vector (rev (map (eval_lane_source p) (srcs @ [s]))) W"
    using verilog_vector_Cons[of "eval_lane_source p s" "rev (map (eval_lane_source p) srcs)" W]
    by simp
  finally show ?case .
qed

lemma xor_integers_map_rev: "xor_integers (rev vs) = xor_integers vs"
  by (rule xor_integers_rev)

lemma xor_tree_instance_on_lanes:
  assumes "srcs \<noteq> []"
  shows "xor_tree_instance (int (length srcs)) W
           (drive_bus p (map (\<lambda>(i, s). LaneAssign ((i + 1) * W - 1) (i * W) s) (py_enumerate srcs))) =
         Some (xor_integers (map (\<lambda>s. take_bit (nat W) (eval_lane_source p s)) srcs))"
proof -
  let ?vs = "rev (map (\<lambda>s. take_bit (nat W) (eval_lane_source p s)) srcs)"
  have ne: "?vs \<noteq> []" using assms by simp
  have wd: "\<forall>v\<in>set ?vs. take_bit (nat W) v = v" by auto
  have len: "int (length ?vs) = int (length srcs)" by simp
  have bus: "int_list_to_verilog_vector ?vs W =
               int_list_to_verilog_vector (rev (map (eval_lane_source p) srcs)) W"
    using verilog_vector_truncates[of W "rev (map (eval_lane_source p) srcs)"]
    by (simp add: rev_map comp_def)
  from xor_tree_generate_src_run[OF ne wd] obtain m where
    m: "xor_tree_generate_src (int (length ?vs)) W = Inr m"
       "xor_tree_output m (int_list_to_verilog_vector ?vs W) = Some (xor_integers ?vs)" by blast
  have "xor_tree_instance (int (length srcs)) W
          (int_list_to_verilog_vector (rev (map (eval_lane_source p) srcs)) W) =
        Some (xor_integers ?vs)"
    using m by (simp add: xor_tree_instance_def bus)
  then show ?thesis by (simp only: drive_bus_lanes xor_integers_rev)
qed

section \<open>The affine module computes poly\_affine\<close>

lemma set_bits_from_lower: "\<forall>x\<in>set (set_bits_from n pos). pos \<le> x"
proof (induction n pos rule: set_bits_from.induct)
  case (1 n pos)
  show ?case
  proof (cases "n = 0")
    case True
    then show ?thesis by (subst set_bits_from.simps) simp
  next
    case False
    have s: "set_bits_from n pos = (if odd n then [pos] else []) @ set_bits_from (n div 2) (pos + 1)"
      using False by (subst set_bits_from.simps) simp
    have "\<forall>x\<in>set (set_bits_from (n div 2) (pos + 1)). pos + 1 \<le> x" using 1[OF False] .
    then show ?thesis unfolding s by auto
  qed
qed

lemma py_enumerate_map:
  "py_enumerate (map f xs) = map (\<lambda>(i, x). (i, f x)) (py_enumerate xs)"
  by (simp add: py_enumerate_def zip_map2)

lemma take_bit_push_bit_small:
  fixes p :: int
  assumes "0 \<le> p" "p < 2 ^ b" "t + b \<le> W"
  shows "take_bit W (push_bit t p) = push_bit t p"
proof -
  have "push_bit t p < 2 ^ (t + b)" using assms(2) by (simp add: push_bit_eq_mult power_add)
  also have "(2::int) ^ (t + b) \<le> 2 ^ W" using assms(3) by (intro power_increasing) simp_all
  finally have "push_bit t p < 2 ^ W" .
  moreover have "0 \<le> push_bit t p" using assms(1) by simp
  ultimately show ?thesis by (simp add: take_bit_int_eq_self)
qed

lemma fold_xor_as_xor_integers:
  "fold (\<lambda>i out. out XOR f i) xs acc = acc XOR xor_integers (map f xs)"
proof -
  have "fold (\<lambda>i out. out XOR f i) xs acc = fold (\<lambda>v result. result XOR v) (map f xs) acc"
    by (simp add: fold_map comp_def)
  then show ?thesis by (simp only: xor_integers_fold)
qed

lemma lanes_of_mapped_sources:
  "map (\<lambda>(i, x). LaneAssign ((i + 1) * W - 1) (i * W) (f x)) (py_enumerate xs) =
   map (\<lambda>(i, s). LaneAssign ((i + 1) * W - 1) (i * W) s) (py_enumerate (map f xs))"
  by (simp add: py_enumerate_map comp_def case_prod_unfold)

lemma lanes_snoc:
  "map (\<lambda>(i, s). LaneAssign ((i + 1) * W - 1) (i * W) s) (py_enumerate (ys @ [s])) =
   map (\<lambda>(i, s). LaneAssign ((i + 1) * W - 1) (i * W) s) (py_enumerate ys)
   @ [LaneAssign ((int (length ys) + 1) * W - 1) (int (length ys) * W) s]"
  by (simp add: py_enumerate_snoc)

lemma poly_affine_generate_src_eq:
  assumes "get_bit_positions a = Some S" and "rev S = A" and "A \<noteq> []"
  shows "poly_affine_generate_src a c b = Some (Inr
     \<lparr> pa_bit_length = b, pa_out_bit_length = hd A + b,
       pa_xor_tree_num_vectors = (if c \<noteq> 0 then int (length A) + 1 else int (length A)),
       pa_xor_tree_bit_length = hd A + b,
       pa_lanes =
         map (\<lambda>(i, ti). LaneAssign ((i + 1) * (hd A + b) - 1) (i * (hd A + b))
                (if ti \<noteq> 0 then Shifted ti else Plain)) (py_enumerate A)
         @ (if c \<noteq> 0
            then [LaneAssign ((int (length A) + 1) * (hd A + b) - 1)
                    ((int (length A) + 1 - 1) * (hd A + b)) (Const c)]
            else []) \<rparr>)"
  using assms by (cases A) (simp_all add: poly_affine_generate_src_def Let_def)

lemma poly_affine_module_eq:
  assumes a: "1 \<le> a" and c: "0 \<le> c" "c < 2 ^ nat (poly_degree a + b)"
    and b: "0 \<le> b" and p: "0 \<le> p" "p < 2 ^ nat b"
  shows "\<exists>y. poly_affine a p c = Some y \<and> poly_affine_module a c b p = Some y \<and>
           0 \<le> y \<and> y < 2 ^ nat (poly_degree a + b)"
proof -
  define S where "S = set_bits_from (nat a) 0"
  define W where "W = poly_degree a + b"
  define g where "g = (\<lambda>t. push_bit (nat t) p)"
  have gS: "get_bit_positions a = Some S" using a by (simp add: get_bit_positions_eq S_def)
  have na: "0 < nat a" using a by simp
  have ia: "int (nat a) = a" using a by simp
  from set_bits_from_props[OF na, of 0] have
    P: "S \<noteq> []" "last S = poly_degree a" "\<forall>x\<in>set S. x \<le> poly_degree a"
    unfolding ia S_def by simp_all
  have L: "\<forall>x\<in>set S. 0 \<le> x" using set_bits_from_lower[of "nat a" 0] by (simp add: S_def)
  have d0: "0 \<le> poly_degree a" using poly_degree_bounds(1)[of a] a by simp
  have W0: "0 \<le> W" using d0 b by (simp add: W_def)
  obtain t ts where r: "rev S = t # ts" using P(1) by (cases "rev S") auto
  have "hd (rev S) = last S" by (rule hd_rev)
  then have t: "t = poly_degree a" using P(2) r by simp
  define srcs where "srcs = map (\<lambda>ti. if ti \<noteq> 0 then Shifted ti else Plain) (rev S)
                             @ (if c \<noteq> 0 then [Const c] else [])"
  define m where "m = \<lparr> pa_bit_length = b, pa_out_bit_length = W,
      pa_xor_tree_num_vectors = int (length srcs), pa_xor_tree_bit_length = W,
      pa_lanes = map (\<lambda>(i, s). LaneAssign ((i + 1) * W - 1) (i * W) s) (py_enumerate srcs) \<rparr>"
  have hA: "hd (rev S) + b = W" using t r by (simp add: W_def)
  have rne: "rev S \<noteq> []" using P(1) by simp
  have lanes: "map (\<lambda>(i, ti). LaneAssign ((i + 1) * W - 1) (i * W)
                      (if ti \<noteq> 0 then Shifted ti else Plain)) (py_enumerate (rev S))
                 @ (if c \<noteq> 0
                    then [LaneAssign ((int (length (rev S)) + 1) * W - 1)
                            ((int (length (rev S)) + 1 - 1) * W) (Const c)]
                    else []) =
               map (\<lambda>(i, s). LaneAssign ((i + 1) * W - 1) (i * W) s) (py_enumerate srcs)"
  proof (cases "c = 0")
    case True
    then show ?thesis unfolding srcs_def
      using lanes_of_mapped_sources[of W "\<lambda>ti. if ti \<noteq> 0 then Shifted ti else Plain" "rev S"]
      by simp
  next
    case False
    have "map (\<lambda>(i, s). LaneAssign ((i + 1) * W - 1) (i * W) s) (py_enumerate srcs) =
            map (\<lambda>(i, s). LaneAssign ((i + 1) * W - 1) (i * W) s)
              (py_enumerate (map (\<lambda>ti. if ti \<noteq> 0 then Shifted ti else Plain) (rev S)))
            @ [LaneAssign ((int (length (rev S)) + 1) * W - 1) (int (length (rev S)) * W) (Const c)]"
      unfolding srcs_def using False lanes_snoc[of W "map (\<lambda>ti. if ti \<noteq> 0 then Shifted ti else Plain) (rev S)" "Const c"]
      by simp
    then show ?thesis
      using False lanes_of_mapped_sources[of W "\<lambda>ti. if ti \<noteq> 0 then Shifted ti else Plain" "rev S"]
      by simp
  qed
  have nv: "(if c \<noteq> 0 then int (length (rev S)) + 1 else int (length (rev S))) = int (length srcs)"
    by (simp add: srcs_def)
  have gen: "poly_affine_generate_src a c b = Some (Inr m)"
    unfolding poly_affine_generate_src_eq[OF gS refl rne] hA lanes nv m_def by simp
  have ne: "srcs \<noteq> []" using P(1) by (simp add: srcs_def)
  have tp: "take_bit (nat b) p = p" using p by (simp add: take_bit_int_eq_self)
  have mod: "poly_affine_module a c b p =
               Some (xor_integers (map (\<lambda>s. take_bit (nat W) (eval_lane_source p s)) srcs))"
    using xor_tree_instance_on_lanes[OF ne, of W p]
    by (simp add: poly_affine_module_def gen m_def tp)
  have sh: "take_bit (nat W) (eval_lane_source p (if ti \<noteq> 0 then Shifted ti else Plain)) = g ti"
    if "ti \<in> set S" for ti
  proof -
    have b1: "0 \<le> ti" "ti \<le> poly_degree a" using that L P(3) by auto
    have "nat ti + nat b \<le> nat W" using b1 b by (simp add: W_def)
    from take_bit_push_bit_small[OF p this] have "take_bit (nat W) (push_bit (nat ti) p) = push_bit (nat ti) p" .
    then show ?thesis by (cases "ti = 0") (simp_all add: g_def)
  qed
  have tc: "take_bit (nat W) c = c" using c by (simp add: take_bit_int_eq_self W_def)
  have vals: "map (\<lambda>s. take_bit (nat W) (eval_lane_source p s)) srcs =
                map g (rev S) @ (if c \<noteq> 0 then [c] else [])"
    using sh tc by (simp add: srcs_def)
  have x: "xor_integers (map g (rev S) @ (if c \<noteq> 0 then [c] else [])) = xor_integers (map g S) XOR c"
    using xor_integers_rev[of "map g S"] by (simp add: xor_integers_append rev_map)
  have soft: "poly_affine a p c = Some (xor_integers (map g S) XOR c)"
    using fold_xor_as_xor_integers[of "\<lambda>i. push_bit (nat i) p" S 0]
    by (simp add: poly_affine_def gS g_def)
  define y where "y = xor_integers (map g S) XOR c"
  have wd: "\<forall>v\<in>set (map g S). take_bit (nat W) v = v"
  proof
    fix v assume "v \<in> set (map g S)"
    then obtain ti where ti: "ti \<in> set S" "v = g ti" by auto
    from sh[OF ti(1)] have "take_bit (nat W) (g ti) = g ti"
      by (cases "ti = 0") (simp_all add: g_def take_bit_eq_mod)
    then show "take_bit (nat W) v = v" using ti(2) by simp
  qed
  have "take_bit (nat W) y = y"
    using xor_integers_width[OF wd] tc by (simp add: y_def take_bit_xor)
  then have yb: "0 \<le> y" "y < 2 ^ nat W" by (simp_all add: take_bit_int_eq_self_iff)
  from soft mod vals x yb show ?thesis by (simp add: y_def W_def)
qed

section \<open>The reduction module computes poly\_mod\<close>

lemma nat_less_exp_int:
  assumes "0 \<le> r" "r < 2 ^ n"
  shows "nat r < 2 ^ n"
proof -
  have "int (nat r) < int (2 ^ n)" using assms by simp
  then show ?thesis by (simp only: of_nat_less_iff)
qed

lemma poly_mod_xor:
  assumes h: "1 \<le> h" and y: "0 \<le> y1" "0 \<le> y2"
    and r: "poly_mod y1 h = Some r1" "poly_mod y2 h = Some r2"
  shows "poly_mod (y1 XOR y2) h = Some (r1 XOR r2)"
proof -
  from poly_mod_quotient[OF y(1) h] r(1) obtain q1 where
    1: "0 \<le> r1" "poly_degree r1 < poly_degree h" "nat r1 = nat y1 XOR clmul q1 (nat h)" by auto
  from poly_mod_quotient[OF y(2) h] r(2) obtain q2 where
    2: "0 \<le> r2" "poly_degree r2 < poly_degree h" "nat r2 = nat y2 XOR clmul q2 (nat h)" by auto
  have hpos: "0 < h" using h by simp
  have d0: "0 \<le> poly_degree h" by (rule poly_degree_bounds(1)[OF hpos])
  have b1: "r1 < 2 ^ nat (poly_degree h)"
    using poly_degree_less_iff[OF 1(1), of "nat (poly_degree h)"] 1(2) d0 by simp
  have b2: "r2 < 2 ^ nat (poly_degree h)"
    using poly_degree_less_iff[OF 2(1), of "nat (poly_degree h)"] 2(2) d0 by simp
  have x0: "0 \<le> r1 XOR r2" using 1(1) 2(1) by simp
  have "r1 XOR r2 < 2 ^ nat (poly_degree h)" by (rule XOR_upper[OF 1(1) b1 b2])
  then have "poly_degree (r1 XOR r2) < poly_degree h"
    using poly_degree_less_iff[OF x0, of "nat (poly_degree h)"] d0 by simp
  then have s: "poly_mod (r1 XOR r2) h = Some (r1 XOR r2)" by (rule poly_mod_small)
  have z0: "0 \<le> y1 XOR y2" using y by simp
  have "nat (r1 XOR r2) = nat (y1 XOR y2) XOR clmul (q1 XOR q2) (nat h)"
    by (simp add: nat_xor_nonneg 1 2 y clmul_xor_left ac_simps)
  then have "nat (y1 XOR y2) = nat (r1 XOR r2) XOR clmul (q1 XOR q2) (nat h)"
    by (simp add: xor.assoc)
  from poly_mod_cong[OF h x0 z0 this] s show ?thesis by simp
qed

lemma top_bit_split:
  fixes y :: int
  assumes "0 \<le> y" "y < 2 ^ Suc m"
  shows "y = take_bit m y XOR (if bit y m then 2 ^ m else 0)"
proof (rule bit_eqI)
  fix k
  have t: "take_bit (Suc m) y = y" using assms by (simp add: take_bit_int_eq_self)
  have hi: "\<not> bit y k" if "Suc m \<le> k" for k
    using that by (subst t[symmetric]) (simp add: bit_take_bit_iff)
  show "bit y k = bit (take_bit m y XOR (if bit y m then 2 ^ m else 0)) k"
  proof (cases "k < m")
    case True
    then show ?thesis by (simp add: bit_xor_iff bit_take_bit_iff bit_exp_iff)
  next
    case False
    show ?thesis
    proof (cases "k = m")
      case True
      then show ?thesis by (simp add: bit_xor_iff bit_take_bit_iff bit_exp_iff)
    next
      case False
      with \<open>\<not> k < m\<close> have "Suc m \<le> k" by simp
      from hi[OF this] show ?thesis using False \<open>\<not> k < m\<close>
        by (simp add: bit_xor_iff bit_take_bit_iff bit_exp_iff)
    qed
  qed
qed

lemma poly_mod_zero_left: "1 \<le> h \<Longrightarrow> poly_mod 0 h = Some 0"
proof -
  assume h: "1 \<le> h"
  have "0 \<le> poly_degree h" using poly_degree_bounds(1)[of h] h by simp
  then have "poly_degree 0 < poly_degree h" by (simp add: poly_degree_def)
  then show ?thesis by (rule poly_mod_small)
qed

text \<open>the sum of the gated constants is the remainder\<close>

lemma gated_constants_sum:
  assumes h: "1 \<le> h"
    and cs: "\<forall>i<length cs. poly_mod (push_bit (nat (poly_degree h) + i) 1) h = Some (cs ! i)"
  shows "n \<le> length cs \<Longrightarrow> 0 \<le> y \<Longrightarrow> y < 2 ^ (nat (poly_degree h) + n) \<Longrightarrow>
         poly_mod y h =
           Some (xor_integers (map (\<lambda>i. if bit y (nat (poly_degree h) + i) then cs ! i else 0) [0..<n])
                 XOR take_bit (nat (poly_degree h)) y)"
proof (induction n arbitrary: y)
  case 0
  have "poly_degree y < poly_degree h"
    using poly_degree_less_iff[OF 0(2), of "nat (poly_degree h)"] 0(3)
      poly_degree_bounds(1)[of h] h by simp
  then have "poly_mod y h = Some y" by (rule poly_mod_small)
  moreover have "take_bit (nat (poly_degree h)) y = y"
    using 0(2,3) by (simp add: take_bit_int_eq_self)
  ultimately show ?case by simp
next
  case (Suc n)
  let ?D = "nat (poly_degree h)"
  let ?y' = "take_bit (?D + n) y"
  let ?e = "if bit y (?D + n) then 2 ^ (?D + n) else (0::int)"
  let ?g = "if bit y (?D + n) then cs ! n else 0"
  have sp: "y = ?y' XOR ?e" using top_bit_split[of y "?D + n"] Suc.prems(2,3) by simp
  have y'0: "0 \<le> ?y'" by simp
  have y'b: "?y' < 2 ^ (?D + n)" by simp
  have e0: "0 \<le> ?e" by simp
  have n: "n \<le> length cs" "n < length cs" using Suc.prems(1) by simp_all
  have IH: "poly_mod ?y' h =
      Some (xor_integers (map (\<lambda>i. if bit ?y' (?D + i) then cs ! i else 0) [0..<n])
            XOR take_bit ?D ?y')"
    by (rule Suc.IH[OF n(1) y'0 y'b])
  have same: "map (\<lambda>i. if bit ?y' (?D + i) then cs ! i else 0) [0..<n] =
              map (\<lambda>i. if bit y (?D + i) then cs ! i else 0) [0..<n]"
    by (simp add: bit_take_bit_iff)
  have low: "take_bit ?D ?y' = take_bit ?D y" by (simp add: min_def)
  have pe: "poly_mod ?e h = Some ?g"
    using cs[rule_format, OF n(2)] poly_mod_zero_left[OF h] by (simp add: push_bit_eq_mult)
  have "poly_mod (?y' XOR ?e) h =
          Some ((xor_integers (map (\<lambda>i. if bit y (?D + i) then cs ! i else 0) [0..<n])
                 XOR take_bit ?D y) XOR ?g)"
    using poly_mod_xor[OF h y'0 e0 IH pe] by (simp only: same low)
  moreover have "xor_integers (map (\<lambda>i. if bit y (?D + i) then cs ! i else 0) [0..<Suc n]) =
                 xor_integers (map (\<lambda>i. if bit y (?D + i) then cs ! i else 0) [0..<n]) XOR ?g"
    by (simp add: xor_integers_append)
  ultimately show ?case using sp by (simp add: ac_simps)
qed

section \<open>The reduction module equals poly\_mod on its input width\<close>

lemma lanes_indexed_sources:
  "map (\<lambda>(i, x). LaneAssign ((i + 1) * W - 1) (i * W) (F i x)) (py_enumerate xs) =
   map (\<lambda>(i, s). LaneAssign ((i + 1) * W - 1) (i * W) s)
     (py_enumerate (map (\<lambda>i. F (int i) (xs ! i)) [0..<length xs]))"
  by (rule nth_equalityI) (simp_all add: py_enumerate_def)

lemma poly_mod_generate_src_eq:
  assumes "get_reduction_constants h b = Some (Inr cs)"
  shows "poly_mod_generate_src h b = Some (Inr
     \<lparr> pm_y_bit_length = b, pm_in_bit_length = b, pm_out_bit_length = poly_degree h,
       pm_reduction_constants = cs,
       pm_xor_tree_num_vectors = int (length cs) + 1,
       pm_xor_tree_bit_length = poly_degree h,
       pm_lanes = map (\<lambda>(i, constant).
                     LaneAssign ((i + 1) * poly_degree h - 1) (i * poly_degree h)
                       (GatedConst (poly_degree h + i) constant))
                   (py_enumerate cs)
                 @ [LaneAssign ((int (length cs) + 1) * poly_degree h - 1)
                      ((int (length cs) + 1 - 1) * poly_degree h)
                      (LowBits (poly_degree h - 1) 0)] \<rparr>)"
  by (simp add: poly_mod_generate_src_def Let_def assms poly_degree_bit_length)

lemma poly_mod_module_eq:
  assumes h: "1 \<le> h" and b: "poly_degree h \<le> b" and y: "0 \<le> y" "y < 2 ^ nat b"
  shows "poly_mod_module h b y = poly_mod y h"
proof -
  define D where "D = poly_degree h"
  have d0: "0 \<le> D" using poly_degree_bounds(1)[of h] h by (simp add: D_def)
  from get_reduction_constants_eq[OF h b] obtain cs where
    cs: "get_reduction_constants h b = Some (Inr cs)" "length cs = nat (b - D)"
        "\<forall>i<nat (b - D). poly_mod (push_bit (nat D + i) 1) h = Some (cs ! i)"
    unfolding D_def by blast
  define srcs where "srcs = map (\<lambda>i. GatedConst (D + int i) (cs ! i)) [0..<length cs]
                             @ [LowBits (D - 1) 0]"
  have lanes: "map (\<lambda>(i, constant). LaneAssign ((i + 1) * D - 1) (i * D) (GatedConst (D + i) constant))
                 (py_enumerate cs)
               @ [LaneAssign ((int (length cs) + 1) * D - 1) ((int (length cs) + 1 - 1) * D)
                    (LowBits (D - 1) 0)] =
               map (\<lambda>(i, s). LaneAssign ((i + 1) * D - 1) (i * D) s) (py_enumerate srcs)"
    unfolding srcs_def
    using lanes_indexed_sources[of D "\<lambda>i constant. GatedConst (D + i) constant" cs]
      lanes_snoc[of D "map (\<lambda>i. GatedConst (D + int i) (cs ! i)) [0..<length cs]" "LowBits (D - 1) 0"]
    by simp
  have nv: "int (length cs) + 1 = int (length srcs)" by (simp add: srcs_def)
  have ne: "srcs \<noteq> []" by (simp add: srcs_def)
  have ty: "take_bit (nat b) y = y" using y by (simp add: take_bit_int_eq_self)
  have m: "poly_mod_module h b y =
             Some (xor_integers (map (\<lambda>s. take_bit (nat D) (eval_lane_source y s)) srcs))"
    unfolding poly_mod_module_def poly_mod_generate_src_eq[OF cs(1)] D_def[symmetric] lanes
    using xor_tree_instance_on_lanes[OF ne, of D y]
    by (simp add: nv ty)
  have cw: "take_bit (nat D) (cs ! i) = cs ! i" if "i < length cs" for i
  proof -
    have "(0::int) \<le> push_bit (nat D + i) 1" by simp
    from poly_mod_total[OF this h] cs(3)[rule_format, of i] that cs(2)
    have c: "0 \<le> cs ! i" "poly_degree (cs ! i) < poly_degree h" by auto
    have "cs ! i < 2 ^ nat D"
      using poly_degree_less_iff[OF c(1), of "nat D"] c(2) d0 by (simp add: D_def)
    then show ?thesis using c(1) by (simp add: take_bit_int_eq_self)
  qed
  have w: "nat (D - 1 - 0 + 1) = nat D" by simp
  have vals: "map (\<lambda>s. take_bit (nat D) (eval_lane_source y s)) srcs =
                map (\<lambda>i. if bit y (nat D + i) then cs ! i else 0) [0..<length cs]
                @ [take_bit (nat D) y]"
    using cw d0 by (simp add: srcs_def nat_add_distrib w del: diff_zero)
  have yb: "y < 2 ^ (nat (poly_degree h) + length cs)"
  proof -
    have "nat D + nat (b - D) = nat b" using d0 b by (simp add: D_def)
    then show ?thesis using y(2) cs(2) by (simp add: D_def)
  qed
  have cs': "\<forall>i<length cs. poly_mod (push_bit (nat (poly_degree h) + i) 1) h = Some (cs ! i)"
    using cs(2,3) by (simp add: D_def)
  from gated_constants_sum[OF h cs' le_refl y(1) yb]
  have "poly_mod y h =
          Some (xor_integers (map (\<lambda>i. if bit y (nat D + i) then cs ! i else 0) [0..<length cs])
                XOR take_bit (nat D) y)"
    by (simp add: D_def)
  then show ?thesis by (simp add: m vals xor_integers_append)
qed

section \<open>The register clocked by the generated modules\<close>

lemma poly_affine_mod_module_eq:
  assumes a: "1 \<le> a" and c: "0 \<le> c" "c < 2 ^ nat (poly_degree a + b)"
    and h: "1 \<le> h" and b: "poly_degree h \<le> poly_degree a + b" "0 \<le> b"
    and p: "0 \<le> p" "p < 2 ^ nat b"
  shows "\<exists>y. poly_affine_mod_module a c h b p = Some y \<and> poly_affine_mod a p c h = Some y \<and>
           0 \<le> y \<and> y < 2 ^ nat (poly_degree h)"
proof -
  from poly_affine_module_eq[OF a c b(2) p] obtain w where
    w: "poly_affine a p c = Some w" "poly_affine_module a c b p = Some w"
       "0 \<le> w" "w < 2 ^ nat (poly_degree a + b)" by blast
  have b': "poly_degree h \<le> b + poly_degree a" using b(1) by simp
  have w': "w < 2 ^ nat (b + poly_degree a)" using w(4) by (simp add: add.commute)
  from poly_mod_total[OF w(3) h] obtain r where
    r: "poly_mod w h = Some r" "0 \<le> r" "poly_degree r < poly_degree h" by blast
  have d0: "0 \<le> poly_degree h" using poly_degree_bounds(1)[of h] h by simp
  have rb: "r < 2 ^ nat (poly_degree h)"
    using poly_degree_less_iff[OF r(2), of "nat (poly_degree h)"] r(3) d0 by simp
  have "poly_affine_mod_module a c h b p = Some r"
    using poly_mod_module_eq[OF h b' w(3) w'] r(1)
    by (simp add: poly_affine_mod_module_def poly_affine_mod_generate_src_def Let_def w(2))
  moreover have "poly_affine_mod a p c h = Some r"
    by (simp add: poly_affine_mod_def w(1) r(1))
  ultimately show ?thesis using r(2) rb by blast
qed

lemma prng_next_state_eq:
  assumes a: "1 \<le> a" and c: "0 \<le> c" "c < 2 ^ nat (poly_degree a + poly_degree h)"
    and h: "1 \<le> h" and s: "0 \<le> s" "s < 2 ^ nat (poly_degree h)"
  shows "\<exists>y. prng_next_state a c h s = Some y \<and> poly_affine_mod a s c h = Some y \<and>
           0 \<le> y \<and> y < 2 ^ nat (poly_degree h)"
proof -
  have d0: "0 \<le> poly_degree h" using poly_degree_bounds(1)[of h] h by simp
  have a0: "0 \<le> poly_degree a" using poly_degree_bounds(1)[of a] a by simp
  have b: "poly_degree h \<le> poly_degree a + poly_degree h" using a0 by simp
  from poly_affine_mod_module_eq[OF a c h b d0 s]
  show ?thesis by (simp add: prng_next_state_def prng_generate_src_def)
qed

lemma prng_state_after_enabled_edges:
  assumes a: "1 \<le> a" and c: "0 \<le> c" "c < 2 ^ nat (poly_degree a + poly_degree h)"
    and h: "1 \<le> h" and s: "0 \<le> S" "S < 2 ^ nat (poly_degree h)"
  shows "\<exists>x. prng_clock (prng_next_state a c h) seed (replicate k (False, True)) (Some S) = Some x \<and>
             affineMod_iterated a c h k S = Some x \<and> 0 \<le> x \<and> x < 2 ^ nat (poly_degree h)"
proof (induction k)
  case 0
  show ?case using s by (simp add: affineMod_iterated_def)
next
  case (Suc k)
  let ?fh = "\<lambda>s. case s of None \<Rightarrow> None | Some p \<Rightarrow> prng_next_state a c h p"
  let ?fs = "\<lambda>s. case s of None \<Rightarrow> None | Some p \<Rightarrow> poly_affine_mod a p c h"
  from Suc.IH obtain x where
    x: "prng_clock (prng_next_state a c h) seed (replicate k (False, True)) (Some S) = Some x"
       "affineMod_iterated a c h k S = Some x" "0 \<le> x" "x < 2 ^ nat (poly_degree h)" by blast
  from prng_next_state_eq[OF a c h x(3,4)] obtain y where
    y: "prng_next_state a c h x = Some y" "poly_affine_mod a x c h = Some y"
       "0 \<le> y" "y < 2 ^ nat (poly_degree h)" by blast
  have hk: "(?fh ^^ k) (Some S) = Some x" using x(1) by (simp only: prng_clock_enabled)
  have "prng_clock (prng_next_state a c h) seed (replicate (Suc k) (False, True)) (Some S) =
          (?fh ^^ Suc k) (Some S)" by (simp only: prng_clock_enabled)
  also have "\<dots> = ?fh ((?fh ^^ k) (Some S))" by simp
  also have "\<dots> = Some y" by (simp add: hk y(1))
  finally have 1: "prng_clock (prng_next_state a c h) seed (replicate (Suc k) (False, True)) (Some S)
                    = Some y" .
  have "affineMod_iterated a c h (Suc k) S = ?fs ((?fs ^^ k) (Some S))"
    by (simp add: affineMod_iterated_def)
  also have "\<dots> = Some y" using x(2) by (simp add: affineMod_iterated_def y(2))
  finally have 2: "affineMod_iterated a c h (Suc k) S = Some y" .
  from 1 2 y(3,4) show ?case by blast
qed

lemma prng_module_reset_then_enabled:
  assumes a: "1 \<le> a" and c: "0 \<le> c" "c < 2 ^ nat (poly_degree a + poly_degree h)"
    and h: "1 \<le> h" and s: "0 \<le> S" "S < 2 ^ nat (poly_degree h)"
  shows "prng_clock (prng_next_state a c h) S ((True, en) # replicate k (False, True)) st =
           affineMod_iterated a c h k S"
  using prng_state_after_enabled_edges[OF assms, of S k] by (auto simp add: prng_posedge_def)

lemma prng_module_tb_edges_run:
  assumes a: "1 \<le> a" and c: "0 \<le> c" "c < 2 ^ nat (poly_degree a + poly_degree h)"
    and h: "1 \<le> h" and s: "0 \<le> S" "S < 2 ^ nat (poly_degree h)"
  shows "prng_clock (prng_next_state a c h) S prng_tb_edges st = affineMod_iterated a c h 100 S"
proof -
  have "prng_clock (prng_next_state a c h) S prng_tb_edges st =
          prng_clock (prng_next_state a c h) S ((True, False) # replicate 100 (False, True))
            (prng_posedge (prng_next_state a c h) False False S st)"
    by (simp add: prng_tb_edges_def)
  then show ?thesis by (simp only: prng_module_reset_then_enabled[OF assms])
qed


text \<open>
  Claim C5.  For constants \<open>a, c \<ge> 0\<close> and a modulus \<open>h \<ge> 1\<close> of degree
  \<open>D\<close>, and a \<open>randint\<close> that returns a value within its bounds, the PRNG test
  harness draws a seed \<open>S\<close> of \<open>D\<close> bits and its golden expected value \<open>E\<close> is
  the 100-fold iteration of \<open>poly_affine_mod a _ c h\<close> from \<open>S\<close>.  When the
  generated modules exist and hold the constant (\<open>a \<ge> 1\<close> and \<open>c\<close> within the
  \<open>degree(a) + D\<close> bits of the affine module's output, as for the reduced constants
  that the tool passes), \<open>E\<close> is also the state of the register after the clock
  edges of the test bench, the next state being computed by the instantiated
  combinational module.  More generally, after a reset edge that loads a seed
  \<open>S'\<close> of \<open>D\<close> bits and \<open>k\<close> enabled edges the state is the \<open>k\<close>-fold
  iteration from \<open>S'\<close>, which is defined, and for \<open>k = 0\<close> it is the seed
  itself.
\<close>

theorem prng_golden_value_is_iteration:
  assumes "0 \<le> a" and "0 \<le> c" and "1 \<le> h"
    and "\<forall>g lo hi. lo \<le> hi \<longrightarrow> lo \<le> fst (randint R g lo hi) \<and> fst (randint R g lo hi) \<le> hi"
  shows "(\<exists>S E g1. prng_random_computation_example R a c h 42 g = Some (Inr (S, E), g1) \<and>
            0 \<le> S \<and> S < 2 ^ nat (poly_degree h) \<and>
            affineMod_iterated a c h 100 S = Some E \<and>
            (1 \<le> a \<and> c < 2 ^ nat (poly_degree a + poly_degree h) \<longrightarrow>
               prng_clock (prng_next_state a c h) S prng_tb_edges st = Some E)) \<and>
         (0 \<le> S' \<longrightarrow> (\<exists>x. affineMod_iterated a c h k S' = Some x)) \<and>
         (1 \<le> a \<and> c < 2 ^ nat (poly_degree a + poly_degree h) \<and>
          0 \<le> S' \<and> S' < 2 ^ nat (poly_degree h) \<longrightarrow>
            prng_clock (prng_next_state a c h) S' ((True, en) # replicate k (False, True)) st =
              affineMod_iterated a c h k S') \<and>
         prng_clock (prng_next_state a c h) S' [(True, en)] st = Some S' \<and>
         affineMod_iterated a c h 0 S' = Some S'"
proof (intro conjI impI)
  have d0: "0 \<le> poly_degree h" using poly_degree_bounds(1)[of h] assms(3) by simp
  from draw_code_input_range[OF assms(4) d0, of 42 g] obtain S g1 where
    S: "draw_code_input R (poly_degree h) 42 g = (Inr S, g1)" "0 \<le> S"
       "S < 2 ^ nat (poly_degree h)" by blast
  from prng_iterate_total[OF assms(1,2,3) S(2), of 100] obtain E where
    E: "prng_iterate a c h 100 S = Some E" by blast
  have 1: "prng_random_computation_example R a c h 42 g = Some (Inr (S, E), g1)"
    by (simp add: prng_random_computation_example_def Let_def S(1) E)
  have 2: "affineMod_iterated a c h 100 S = Some E" using E by (simp only: prng_iterate_eq)
  have 3: "prng_clock (prng_next_state a c h) S prng_tb_edges st = Some E"
    if "1 \<le> a \<and> c < 2 ^ nat (poly_degree a + poly_degree h)"
    using prng_module_tb_edges_run[OF _ assms(2) _ assms(3) S(2,3), of a st] that 2 by simp
  from 1 S(2,3) 2 3
  show "\<exists>S E g1. prng_random_computation_example R a c h 42 g = Some (Inr (S, E), g1) \<and>
            0 \<le> S \<and> S < 2 ^ nat (poly_degree h) \<and>
            affineMod_iterated a c h 100 S = Some E \<and>
            (1 \<le> a \<and> c < 2 ^ nat (poly_degree a + poly_degree h) \<longrightarrow>
               prng_clock (prng_next_state a c h) S prng_tb_edges st = Some E)"
    by blast
next
  assume s: "0 \<le> S'"
  from prng_iterate_total[OF assms(1,2,3) s, of k] obtain x where
    "prng_iterate a c h k S' = Some x" by blast
  then show "\<exists>x. affineMod_iterated a c h k S' = Some x" by (simp only: prng_iterate_eq) simp
next
  assume s: "1 \<le> a \<and> c < 2 ^ nat (poly_degree a + poly_degree h) \<and>
             0 \<le> S' \<and> S' < 2 ^ nat (poly_degree h)"
  then have s': "1 \<le> a" "c < 2 ^ nat (poly_degree a + poly_degree h)" "0 \<le> S'"
    "S' < 2 ^ nat (poly_degree h)" by simp_all
  show "prng_clock (prng_next_state a c h) S' ((True, en) # replicate k (False, True)) st =
          affineMod_iterated a c h k S'"
    by (rule prng_module_reset_then_enabled[OF s'(1) assms(2) s'(2) assms(3) s'(3,4)])
next
  show "prng_clock (prng_next_state a c h) S' [(True, en)] st = Some S'"
    by (simp add: prng_posedge_def)
next
  show "affineMod_iterated a c h 0 S' = Some S'" by (simp add: affineMod_iterated_def)
qed

lemma prng_iterate_example: "prng_iterate 23 5 285 100 0 = Some 162"
  by code_simp

theorem prng_golden_value_is_iteration_witness:
  "(0::int) \<le> 23 \<and> (0::int) \<le> 5 \<and> (1::int) \<le> 285 \<and> (0::int) \<le> 7 \<and>
   (5::int) < 2 ^ nat (poly_degree 23 + poly_degree 285) \<and> (7::int) < 2 ^ nat (poly_degree 285) \<and>
   prng_random_computation_example
     \<lparr> seed_state = (\<lambda>s. s), randint = (\<lambda>g lo hi. (lo, g + 1)) \<rparr> 23 5 285 42 (0::int)
     = Some (Inr (0, 162), 43) \<and>
   affineMod_iterated 23 5 285 100 0 = Some 162 \<and>
   prng_clock (prng_next_state 23 5 285) 0 prng_tb_edges None = Some 162 \<and>
   prng_clock (prng_next_state 23 5 285) 7 ((True, False) # replicate 2 (False, True)) None
     = Some 118 \<and>
   affineMod_iterated 23 5 285 2 7 = Some 118 \<and>
   prng_clock (prng_next_state 23 5 285) 7 [(True, False)] None = Some 7 \<and>
   affineMod_iterated 23 5 285 0 7 = Some 7"
proof -
  let ?R = "\<lparr> seed_state = (\<lambda>s::int. s), randint = (\<lambda>(g::int) (lo::int) (hi::int). (lo, g + 1)) \<rparr>"
  have r: "\<forall>g lo hi. lo \<le> hi \<longrightarrow> lo \<le> fst (randint ?R g lo hi) \<and> fst (randint ?R g lo hi) \<le> hi"
    by simp
  have d: "poly_degree 285 = 8" by code_simp
  have da: "poly_degree 23 = 4" by code_simp
  have e: "prng_random_computation_example ?R 23 5 285 42 0 = Some (Inr (0, 162), 43)"
    by (simp add: d prng_random_computation_example_def draw_code_input_def
        generate_random_integers_def Let_def prng_iterate_example)
  have v: "prng_iterate 23 5 285 2 7 = Some 118" by code_simp
  have v': "affineMod_iterated 23 5 285 2 7 = Some 118" using v by (simp only: prng_iterate_eq)
  from prng_golden_value_is_iteration[of 23 5 285 ?R 0 None 7 2 False, OF _ _ _ r] e v'
  show ?thesis by (auto simp add: d da)
qed

end
